theory Spec2Isabelle
  imports Main "HOL-Library.Char_ord" "HOL-Library.List_Lexorder" "HOL-Library.Product_Lexorder"
begin

section \<open>Data model\<close>

text \<open>
  Parameter names and value labels are Python strings; Python compares strings
  lexicographically by code point, which is the order of \<open>char list\<close> given by
  \<open>Char_ord\<close> and \<open>List_Lexorder\<close>. Tuples compare lexicographically
  (\<open>Product_Lexorder\<close>).

  The parameter map is a Python dict: an association list in insertion order. A dict
  has no two equal keys, which is the predicate \<open>is_dict\<close>.
\<close>

type_synonym name = string
type_synonym val = string
type_synonym assignment = "name \<times> val"
type_synonym pair = "assignment \<times> assignment"
type_synonym parameters = "(name \<times> val list) list"
type_synonym test = "val list"

datatype error = TypeError | ValueError | IndexError

definition is_dict :: "parameters \<Rightarrow> bool" where
  "is_dict ps \<longleftrightarrow> distinct (map fst ps)"

text \<open>\<open>parameters.keys()\<close>, \<open>parameters.values()\<close> and \<open>parameters[p]\<close>.
  The lookup is only ever made at a key taken from \<open>keys\<close>, so the
  \<open>KeyError\<close> branch of Python is never taken; the model returns the empty
  domain there.\<close>

definition keys :: "parameters \<Rightarrow> name list" where
  "keys ps = map fst ps"

definition values_of :: "parameters \<Rightarrow> val list list" where
  "values_of ps = map snd ps"

definition getitem :: "parameters \<Rightarrow> name \<Rightarrow> val list" where
  "getitem ps p = (case map_of ps p of Some d \<Rightarrow> d | None \<Rightarrow> [])"

text \<open>\<open>itertools.combinations(xs, 2)\<close>: the pairs \<open>(xs[i], xs[j])\<close>, \<open>i < j\<close>,
  in lexicographic order of the positions.\<close>

fun combinations2 :: "'a list \<Rightarrow> ('a \<times> 'a) list" where
  "combinations2 [] = []"
| "combinations2 (x # xs) = map (Pair x) xs @ combinations2 xs"

text \<open>\<open>itertools.product(*xss)\<close>: the Cartesian product, the last position
  varying fastest; the product of no lists is the one empty tuple.\<close>

definition product_of :: "'a list list \<Rightarrow> 'a list list" where
  "product_of xss = product_lists xss"

text \<open>\<open>tuple(sorted([a, b]))\<close>: Python's sort is stable and swaps only when
  the second element is smaller than the first.\<close>

definition sorted_pair :: "assignment \<Rightarrow> assignment \<Rightarrow> pair" where
  "sorted_pair a b = (if b < a then (b, a) else (a, b))"

text \<open>\<open>list(s)\<close> for a Python set \<open>s\<close> enumerates the elements once each, in
  an order fixed by their hash values; for strings that order changes from one run of the
  interpreter to the next. The model takes the enumeration as a parameter \<open>enum\<close>,
  applied to the sequence of insertions that built the set; \<open>set_listing enum xs\<close>
  says that \<open>enum\<close> lists the set built from \<open>xs\<close>.\<close>

definition set_listing :: "('a list \<Rightarrow> 'a list) \<Rightarrow> 'a list \<Rightarrow> bool" where
  "set_listing enum xs \<longleftrightarrow> distinct (enum xs) \<and> set (enum xs) = set xs"

section \<open>Pair-space builder (algo.py and greedyalgo.py, the same text)\<close>

text \<open>The sequence of \<open>all_pairs.add\<close> calls of the three nested loops.\<close>

definition pair_insertions :: "parameters \<Rightarrow> pair list" where
  "pair_insertions ps =
     concat (map (\<lambda>(p1, p2).
       concat (map (\<lambda>v1. map (\<lambda>v2. ((p1, v1), (p2, v2))) (getitem ps p2)) (getitem ps p1)))
       (combinations2 (sort (keys ps))))"

definition generate_pairwise_combinations ::
  "(pair list \<Rightarrow> pair list) \<Rightarrow> parameters \<Rightarrow> pair list" where
  "generate_pairwise_combinations enum ps = enum (pair_insertions ps)"

section \<open>greedyalgo.py\<close>

text \<open>\<open>get_pairs_in_test\<close>: the loop over \<open>combinations(range(len(param_keys)), 2)\<close>.
  \<open>param_keys[p]\<close> and \<open>test[p]\<close> raise \<open>IndexError\<close> out of range.\<close>

definition index :: "'a list \<Rightarrow> nat \<Rightarrow> error + 'a" where
  "index xs i = (if i < length xs then Inr (xs ! i) else Inl IndexError)"

fun get_pairs_loop ::
  "(nat \<times> nat) list \<Rightarrow> test \<Rightarrow> name list \<Rightarrow> pair set \<Rightarrow> error + pair set" where
  "get_pairs_loop [] test param_keys pairs = Inr pairs"
| "get_pairs_loop ((p1, p2) # rest) test param_keys pairs =
     (case index param_keys p1 of Inl e \<Rightarrow> Inl e | Inr k1 \<Rightarrow>
     (case index test p1 of Inl e \<Rightarrow> Inl e | Inr t1 \<Rightarrow>
     (case index param_keys p2 of Inl e \<Rightarrow> Inl e | Inr k2 \<Rightarrow>
     (case index test p2 of Inl e \<Rightarrow> Inl e | Inr t2 \<Rightarrow>
        get_pairs_loop rest test param_keys
          (insert (sorted_pair (k1, t1) (k2, t2)) pairs)))))"

definition get_pairs_in_test :: "test \<Rightarrow> name list \<Rightarrow> error + pair set" where
  "get_pairs_in_test test param_keys =
     get_pairs_loop (combinations2 [0 ..< length param_keys]) test param_keys {}"

text \<open>The \<open>for test in all_values\<close> loop of \<open>find_minimum_test_suite\<close>, with its
  two variables \<open>best_test\<close> and \<open>best_new_pairs\<close>.\<close>

fun scan_candidates ::
  "test list \<Rightarrow> name list \<Rightarrow> pair set \<Rightarrow> test option \<times> nat \<Rightarrow> error + (test option \<times> nat)" where
  "scan_candidates [] param_keys covered_pairs best = Inr best"
| "scan_candidates (test # rest) param_keys covered_pairs (best_test, best_new_pairs) =
     (case get_pairs_in_test test param_keys of Inl e \<Rightarrow> Inl e | Inr test_pairs \<Rightarrow>
        (let new_pairs = card (test_pairs - covered_pairs) in
         if new_pairs > best_new_pairs
         then scan_candidates rest param_keys covered_pairs (Some test, new_pairs)
         else scan_candidates rest param_keys covered_pairs (best_test, best_new_pairs)))"

text \<open>All pairs that some candidate realises: the bound of the main loop.\<close>

definition realisable :: "test list \<Rightarrow> name list \<Rightarrow> pair set" where
  "realisable all_values param_keys =
     (\<Union>t \<in> set all_values. case get_pairs_in_test t param_keys of Inl e \<Rightarrow> {} | Inr s \<Rightarrow> s)"

text \<open>Two facts for the termination of the main loop: pair sets are finite, and a scan
  that selects a candidate selects one of \<open>all_values\<close> that realises a pair outside
  the covered set.\<close>

lemma get_pairs_loop_finite:
  "get_pairs_loop cs t ks acc = Inr s \<Longrightarrow> finite acc \<Longrightarrow> finite s"
  by (induction cs t ks acc rule: get_pairs_loop.induct) (auto split: sum.splits)

lemma get_pairs_in_test_finite: "get_pairs_in_test t ks = Inr s \<Longrightarrow> finite s"
  unfolding get_pairs_in_test_def by (erule get_pairs_loop_finite) simp

lemma finite_realisable: "finite (realisable vs ks)"
  unfolding realisable_def
  by (rule finite_UN_I) (auto split: sum.splits dest: get_pairs_in_test_finite)

lemma scan_candidates_Some:
  "scan_candidates vs ks cov b = Inr (Some t, n) \<Longrightarrow>
   (case fst b of None \<Rightarrow> True
    | Some t0 \<Rightarrow> t0 \<in> set all \<and> (\<exists>s. get_pairs_in_test t0 ks = Inr s \<and> s - cov \<noteq> {})) \<Longrightarrow>
   set vs \<subseteq> set all \<Longrightarrow>
   t \<in> set all \<and> (\<exists>s. get_pairs_in_test t ks = Inr s \<and> s - cov \<noteq> {})"
proof (induction vs ks cov b rule: scan_candidates.induct)
  case (1 ks cov b)
  then show ?case by simp
next
  case (2 test rest ks cov bt bn)
  from "2.prems"(1) obtain tp where tp: "get_pairs_in_test test ks = Inr tp"
    by (auto split: sum.splits)
  show ?case
  proof (cases "card (tp - cov) > bn")
    case True
    then have "card (tp - cov) \<noteq> 0" by simp
    then have ne: "tp - cov \<noteq> {}" by (metis card.empty)
    from "2.prems"(1) tp True
    have "scan_candidates rest ks cov (Some test, card (tp - cov)) = Inr (Some t, n)"
      by simp
    moreover have "test \<in> set all" using "2.prems"(3) by simp
    ultimately show ?thesis
      using "2.IH"(1)[OF tp refl True] tp ne "2.prems"(3) by simp
  next
    case False
    from "2.prems"(1) tp False
    have "scan_candidates rest ks cov (bt, bn) = Inr (Some t, n)" by simp
    then show ?thesis
      using "2.IH"(2)[OF tp refl False] "2.prems"(2,3) by simp
  qed
qed

text \<open>The \<open>while len(covered_pairs) < len(all_pairs)\<close> loop; \<open>n\<close> is
  \<open>len(all_pairs)\<close>. The loop ends by its condition or by the \<open>break\<close>.\<close>

function greedy_loop ::
  "test list \<Rightarrow> name list \<Rightarrow> nat \<Rightarrow> pair set \<Rightarrow> test list \<Rightarrow> error + (test list \<times> pair set)" where
  "greedy_loop all_values param_keys n covered_pairs test_suite =
     (if card covered_pairs < n then
        (case scan_candidates all_values param_keys covered_pairs (None, 0) of
           Inl e \<Rightarrow> Inl e
         | Inr (None, best_new_pairs) \<Rightarrow> Inr (test_suite, covered_pairs)
         | Inr (Some best_test, best_new_pairs) \<Rightarrow>
             (case get_pairs_in_test best_test param_keys of Inl e \<Rightarrow> Inl e | Inr best_pairs \<Rightarrow>
                greedy_loop all_values param_keys n (covered_pairs \<union> best_pairs)
                  (test_suite @ [best_test])))
      else Inr (test_suite, covered_pairs))"
  by pat_completeness auto
termination
proof (relation "measure (\<lambda>(vs, ks, n, cov, suite). card (realisable vs ks - cov))")
  show "wf (measure (\<lambda>(vs, ks, n, cov, suite). card (realisable vs ks - cov)))" by simp
next
  fix all_values :: "test list" and param_keys :: "name list" and n :: nat
    and covered_pairs :: "pair set" and test_suite :: "test list"
    and x2 :: "test option \<times> nat" and x1 :: "test option" and x2a :: nat
    and x2b :: test and x2c :: "pair set"
  assume scan: "scan_candidates all_values param_keys covered_pairs (None, 0) = Inr x2"
    and x2: "(x1, x2a) = x2" and x1: "x1 = Some x2b"
    and bp: "get_pairs_in_test x2b param_keys = Inr x2c"
  from scan x2 x1
  have "scan_candidates all_values param_keys covered_pairs (None, 0) = Inr (Some x2b, x2a)"
    by simp
  from scan_candidates_Some[OF this, of all_values]
  have mem: "x2b \<in> set all_values" and ne: "x2c - covered_pairs \<noteq> {}"
    using bp by auto
  from mem bp have sub: "x2c \<subseteq> realisable all_values param_keys"
    unfolding realisable_def by force
  have "realisable all_values param_keys - (covered_pairs \<union> x2c)
        \<subset> realisable all_values param_keys - covered_pairs"
    using sub ne by blast
  then have "card (realisable all_values param_keys - (covered_pairs \<union> x2c))
        < card (realisable all_values param_keys - covered_pairs)"
    by (intro psubset_card_mono) (simp_all add: finite_realisable)
  then show "((all_values, param_keys, n, covered_pairs \<union> x2c, test_suite @ [x2b]),
              (all_values, param_keys, n, covered_pairs, test_suite))
        \<in> measure (\<lambda>(vs, ks, n, cov, suite). card (realisable vs ks - cov))"
    by simp
qed

definition greedy_find_minimum_test_suite ::
  "(pair list \<Rightarrow> pair list) \<Rightarrow> parameters \<Rightarrow> error + (test list \<times> pair list)" where
  "greedy_find_minimum_test_suite enum ps =
     (let param_keys = keys ps;
          all_values = product_of (values_of ps);
          all_pairs = generate_pairwise_combinations enum ps
      in case greedy_loop all_values param_keys (length all_pairs) {} [] of
           Inl e \<Rightarrow> Inl e
         | Inr (test_suite, covered_pairs) \<Rightarrow> Inr (test_suite, all_pairs))"

text \<open>\<open>count_unique_pairs\<close> of greedyalgo.py. The argument \<open>all_pairs\<close> is not
  read by the body.\<close>

fun greedy_count_loop ::
  "test list \<Rightarrow> name list \<Rightarrow> pair set \<times> pair set list \<times> int list \<Rightarrow>
   error + (pair set \<times> pair set list \<times> int list)" where
  "greedy_count_loop [] param_keys st = Inr st"
| "greedy_count_loop (test # rest) param_keys (covered_pairs, test_case_pairs, new_unique_counts) =
     (let current_covered = card covered_pairs in
      case get_pairs_in_test test param_keys of Inl e \<Rightarrow> Inl e | Inr test_pairs \<Rightarrow>
        (let covered_pairs' = covered_pairs \<union> test_pairs;
             new_unique = int (card covered_pairs') - int current_covered
         in greedy_count_loop rest param_keys
              (covered_pairs', test_case_pairs @ [test_pairs], new_unique_counts @ [new_unique])))"

definition greedy_count_unique_pairs ::
  "test list \<Rightarrow> pair list \<Rightarrow> parameters \<Rightarrow> error + (pair set \<times> pair set list \<times> int list)" where
  "greedy_count_unique_pairs test_cases all_pairs ps =
     greedy_count_loop test_cases (keys ps) ({}, [], [])"

section \<open>algo.py\<close>

text \<open>The argument of \<open>find_minimum_test_suite\<close> as the checks of algo.py see it:
  a dict or another object, whose values are lists or other objects.\<close>

datatype pyvalue = PyList "val list" | PyNotList

datatype pyobject = PyDict "(name \<times> pyvalue) list" | PyNotDict

fun isinstance_list :: "pyvalue \<Rightarrow> bool" where
  "isinstance_list (PyList d) = True"
| "isinstance_list PyNotList = False"

fun list_of :: "pyvalue \<Rightarrow> val list" where
  "list_of (PyList d) = d"
| "list_of PyNotList = []"

text \<open>Lines 18 to 23 of algo.py: the three checks, in the order of the source. An
  object that passes is a map from names to lists.\<close>

definition validate :: "pyobject \<Rightarrow> error + parameters" where
  "validate obj =
     (case obj of
        PyNotDict \<Rightarrow> Inl TypeError
      | PyDict items \<Rightarrow>
          if items = [] then Inl ValueError
          else if \<not> list_all isinstance_list (map snd items) then Inl TypeError
          else Inr (map (\<lambda>(k, v). (k, list_of v)) items))"

text \<open>The constraint engine (OR-tools CP-SAT) is outside the repository. The model
  handed to it is kept as data: the number of variables \<open>tc_i\<close>, for each pair the
  indices of the variables whose maximum \<open>pair_i\<close> equals, and the required sum of
  the \<open>pair_i\<close>. The engine is a parameter: it answers a model with a status and
  the value of each \<open>tc_i\<close>.\<close>

datatype cp_status = OPTIMAL | FEASIBLE | INFEASIBLE | MODEL_INVALID | UNKNOWN

record cp_model =
  test_case_vars :: nat
  max_equalities :: "nat list list"
  covered_sum :: nat

type_synonym cp_solver = "cp_model \<Rightarrow> cp_status \<times> (nat \<Rightarrow> bool)"

definition build_model :: "pair list \<Rightarrow> name list \<Rightarrow> test list \<Rightarrow> cp_model" where
  "build_model all_pairs param_keys all_values =
     \<lparr> test_case_vars = length all_values,
       max_equalities =
         map (\<lambda>pair. filter (\<lambda>j. fst pair \<in> set (zip param_keys (all_values ! j))
                                \<and> snd pair \<in> set (zip param_keys (all_values ! j)))
                        [0 ..< length all_values]) all_pairs,
       covered_sum = length all_pairs \<rparr>"

text \<open>\<open>find_minimum_test_suite\<close> of algo.py. The result is the tuple
  (suite, all_pairs) or (None, None). The warning shown for FEASIBLE is a display
  effect and is not modelled.\<close>

definition algo_find_minimum_test_suite ::
  "cp_solver \<Rightarrow> (pair list \<Rightarrow> pair list) \<Rightarrow> pyobject \<Rightarrow>
   error + (test list option \<times> pair list option)" where
  "algo_find_minimum_test_suite solver enum obj =
     (case validate obj of Inl e \<Rightarrow> Inl e | Inr ps \<Rightarrow>
       (let all_pairs = generate_pairwise_combinations enum ps;
            param_keys = keys ps;
            all_values = product_of (values_of ps);
            model = build_model all_pairs param_keys all_values;
            (status, solver_value) = solver model
        in if status = OPTIMAL then
             Inr (Some (map (\<lambda>i. all_values ! i) (filter solver_value [0 ..< length all_values])),
                  Some all_pairs)
           else if status = FEASIBLE then
             Inr (Some (map (\<lambda>i. all_values ! i) (filter solver_value [0 ..< length all_values])),
                  Some all_pairs)
           else Inr (None, None)))"

text \<open>\<open>count_unique_pairs\<close> of algo.py: the inner loop over
  \<open>combinations(zip(parameters.keys(), test), 2)\<close> keeps a pair only if it is in
  \<open>all_pairs\<close>; \<open>zip\<close> stops at the shorter argument, so nothing raises.\<close>

fun algo_test_pairs :: "(assignment \<times> assignment) list \<Rightarrow> pair list \<Rightarrow> pair set \<Rightarrow> pair set" where
  "algo_test_pairs [] all_pairs test_pairs = test_pairs"
| "algo_test_pairs ((p1, p2) # rest) all_pairs test_pairs =
     (let pair = sorted_pair p1 p2 in
      if pair \<in> set all_pairs then algo_test_pairs rest all_pairs (insert pair test_pairs)
      else algo_test_pairs rest all_pairs test_pairs)"

fun algo_count_loop ::
  "test list \<Rightarrow> pair list \<Rightarrow> name list \<Rightarrow> pair set \<times> pair set list \<times> int list \<Rightarrow>
   pair set \<times> pair set list \<times> int list" where
  "algo_count_loop [] all_pairs param_keys st = st"
| "algo_count_loop (test # rest) all_pairs param_keys
       (covered_pairs, test_case_pairs, new_unique_counts) =
     (let current_covered = card covered_pairs;
          test_pairs = algo_test_pairs (combinations2 (zip param_keys test)) all_pairs {};
          covered_pairs' = covered_pairs \<union> test_pairs;
          new_unique = int (card covered_pairs') - int current_covered
      in algo_count_loop rest all_pairs param_keys
           (covered_pairs', test_case_pairs @ [test_pairs], new_unique_counts @ [new_unique]))"

definition algo_count_unique_pairs ::
  "test list \<Rightarrow> pair list \<Rightarrow> parameters \<Rightarrow> pair set \<times> pair set list \<times> int list" where
  "algo_count_unique_pairs test_cases all_pairs ps =
     algo_count_loop test_cases all_pairs (keys ps) ({}, [], [])"

section \<open>Notions used in the statements\<close>

text \<open>The pair universe in the words of the specification: the pairs
  \<open>((name1, value1), (name2, value2))\<close> for two parameters with
  \<open>name1 < name2\<close> and values of their two domains. It is compared with what
  \<open>generate_pairwise_combinations\<close> computes.\<close>

definition pair_universe :: "parameters \<Rightarrow> pair set" where
  "pair_universe ps =
     {((n1, v1), (n2, v2)) | n1 v1 n2 v2 d1 d2.
        (n1, d1) \<in> set ps \<and> (n2, d2) \<in> set ps \<and> n1 < n2 \<and> v1 \<in> set d1 \<and> v2 \<in> set d2}"

text \<open>The unordered pairs of distinct parameter names, each written smaller name
  first.\<close>

definition name_pairs :: "parameters \<Rightarrow> (name \<times> name) set" where
  "name_pairs ps = {(n1, n2). n1 \<in> set (keys ps) \<and> n2 \<in> set (keys ps) \<and> n1 < n2}"

text \<open>The two inner loops of the pair-space builder for one pair of names.\<close>

definition value_pairs :: "name \<Rightarrow> name \<Rightarrow> val list \<Rightarrow> val list \<Rightarrow> pair list" where
  "value_pairs p1 p2 d1 d2 = concat (map (\<lambda>v1. map (\<lambda>v2. ((p1, v1), (p2, v2))) d2) d1)"

text \<open>A test case that assigns, in parameter order, one value of each parameter's own
  domain; these are the elements of the Cartesian product.\<close>

definition candidate :: "parameters \<Rightarrow> test \<Rightarrow> bool" where
  "candidate ps t \<longleftrightarrow> list_all2 (\<lambda>v d. v \<in> set d) t (values_of ps)"

text \<open>The pair set of a test case in closed form; \<open>get_pairs_in_test\<close> returns it
  whenever the test case is at least as long as the list of keys
  (\<open>get_pairs_in_test_ok\<close>).\<close>

definition realised :: "name list \<Rightarrow> test \<Rightarrow> pair set" where
  "realised ks t = set (map (\<lambda>(a, b). sorted_pair a b) (combinations2 (zip ks t)))"

definition covered_by :: "name list \<Rightarrow> test list \<Rightarrow> pair set" where
  "covered_by ks ts = (\<Union>t \<in> set ts. realised ks t)"

text \<open>The count \<open>new_pairs\<close> that one scan of the greedy solver computes for a
  candidate.\<close>

definition newly_covered :: "name list \<Rightarrow> pair set \<Rightarrow> test \<Rightarrow> nat" where
  "newly_covered ks cov t =
     (case get_pairs_in_test t ks of Inl e \<Rightarrow> 0 | Inr s \<Rightarrow> card (s - cov))"

text \<open>What a scan of the candidates \<open>vs\<close> selects: nothing, with count 0, when no
  candidate covers a new pair; otherwise the candidate at the first position \<open>i\<close>
  whose count is positive, strictly greater than the count at every earlier position and
  not exceeded at any position.\<close>

definition first_best :: "test list \<Rightarrow> name list \<Rightarrow> pair set \<Rightarrow> test option \<times> nat \<Rightarrow> bool" where
  "first_best vs ks cov b \<longleftrightarrow>
     (case fst b of
        None \<Rightarrow> snd b = 0 \<and> (\<forall>j < length vs. newly_covered ks cov (vs ! j) = 0)
      | Some t \<Rightarrow> (\<exists>i < length vs. t = vs ! i \<and> snd b = newly_covered ks cov (vs ! i) \<and> 0 < snd b \<and>
          (\<forall>j < i. newly_covered ks cov (vs ! j) < snd b) \<and>
          (\<forall>j < length vs. newly_covered ks cov (vs ! j) \<le> snd b)))"

text \<open>Every test case of the list realises a pair that the covered set and the test
  cases before it do not.\<close>

fun fresh :: "name list \<Rightarrow> pair set \<Rightarrow> test list \<Rightarrow> bool" where
  "fresh ks cov [] = True"
| "fresh ks cov (t # ts) = (\<not> realised ks t \<subseteq> cov \<and> fresh ks (cov \<union> realised ks t) ts)"

text \<open>The marginal counts of the analyzer in closed form.\<close>

fun marginal :: "name list \<Rightarrow> pair set \<Rightarrow> test list \<Rightarrow> int list" where
  "marginal ks cov [] = []"
| "marginal ks cov (t # ts) =
     (int (card (cov \<union> realised ks t)) - int (card cov)) # marginal ks (cov \<union> realised ks t) ts"

text \<open>The sentence of the specification read word for word: the candidate at position
  \<open>i\<close> has a count of newly covered pairs that is positive (the scan starts from
  \<open>best_new_pairs = 0\<close>) and strictly greater than the count of every earlier
  candidate.\<close>

definition exceeds_earlier :: "test list \<Rightarrow> name list \<Rightarrow> pair set \<Rightarrow> nat \<Rightarrow> bool" where
  "exceeds_earlier vs ks cov i \<longleftrightarrow>
     i < length vs \<and> 0 < newly_covered ks cov (vs ! i) \<and>
     (\<forall>j < i. newly_covered ks cov (vs ! j) < newly_covered ks cov (vs ! i))"

text \<open>The list \<open>ts\<close> is the trace of the main loop started at the covered set
  \<open>cov\<close>: each element is what the scan selects at the covered set reached so far,
  while the loop condition holds, and after the last one the loop ends, by its condition
  or because the scan selects nothing.\<close>

fun selected_run :: "test list \<Rightarrow> name list \<Rightarrow> nat \<Rightarrow> pair set \<Rightarrow> test list \<Rightarrow> bool" where
  "selected_run vs ks n cov [] =
     (n \<le> card cov \<or> scan_candidates vs ks cov (None, 0) = Inr (None, 0))"
| "selected_run vs ks n cov (t # ts) =
     (card cov < n \<and> (\<exists>m. scan_candidates vs ks cov (None, 0) = Inr (Some t, m))
      \<and> selected_run vs ks n (cov \<union> realised ks t) ts)"

section \<open>Facts about the greedy solver and the analyzer\<close>

lemma combinations2_map:
  "combinations2 (map f xs) = map (map_prod f f) (combinations2 xs)"
  by (induction xs) auto

lemma combinations2_mem:
  "(a, b) \<in> set (combinations2 xs) \<Longrightarrow> a \<in> set xs \<and> b \<in> set xs"
  by (induction xs) auto

lemma combinations2_fst_neq:
  "(a, b) \<in> set (combinations2 xs) \<Longrightarrow> distinct (map f xs) \<Longrightarrow> f a \<noteq> f b"
  by (induction xs) (auto dest: combinations2_mem)

lemma combinations2_either:
  "a \<in> set xs \<Longrightarrow> b \<in> set xs \<Longrightarrow> a \<noteq> b \<Longrightarrow>
   (a, b) \<in> set (combinations2 xs) \<or> (b, a) \<in> set (combinations2 xs)"
  by (induction xs) auto

lemma combinations2_sorted:
  "sorted xs \<Longrightarrow> distinct xs \<Longrightarrow>
   set (combinations2 xs) = {(a, b). a \<in> set xs \<and> b \<in> set xs \<and> a < b}"
proof (induction xs)
  case Nil
  then show ?case by simp
next
  case (Cons x xs)
  then have IH: "set (combinations2 xs) = {(a, b). a \<in> set xs \<and> b \<in> set xs \<and> a < b}"
    by simp
  from Cons.prems have lt: "\<forall>y \<in> set xs. x < y" by (auto simp: less_le)
  show ?case unfolding combinations2.simps set_append IH using lt by auto
qed

lemma distinct_combinations2: "distinct xs \<Longrightarrow> distinct (combinations2 xs)"
  by (induction xs) (auto simp: distinct_map inj_on_def dest: combinations2_mem)

lemma combinations2_upt_bound:
  "(i, j) \<in> set (combinations2 [0 ..< n]) \<Longrightarrow> i < n \<and> j < n"
  by (auto dest: combinations2_mem)

lemma get_pairs_loop_ok:
  "\<forall>(i, j) \<in> set cs. i < length ks \<and> j < length ks \<and> i < length t \<and> j < length t \<Longrightarrow>
   get_pairs_loop cs t ks acc =
     Inr (acc \<union> set (map (\<lambda>(i, j). sorted_pair (ks ! i, t ! i) (ks ! j, t ! j)) cs))"
  by (induction cs t ks acc rule: get_pairs_loop.induct) (auto simp: index_def)

lemma zip_as_map_upt:
  "length ks \<le> length t \<Longrightarrow> zip ks t = map (\<lambda>i. (ks ! i, t ! i)) [0 ..< length ks]"
  by (rule nth_equalityI) auto

lemma get_pairs_in_test_ok:
  assumes "length ks \<le> length t"
  shows "get_pairs_in_test t ks = Inr (realised ks t)"
proof -
  have b: "\<forall>(i, j) \<in> set (combinations2 [0 ..< length ks]).
             i < length ks \<and> j < length ks \<and> i < length t \<and> j < length t"
    using assms by (auto dest!: combinations2_upt_bound)
  have "map (\<lambda>(i, j). sorted_pair (ks ! i, t ! i) (ks ! j, t ! j)) (combinations2 [0 ..< length ks])
      = map (\<lambda>(a, b). sorted_pair a b) (combinations2 (zip ks t))"
    unfolding zip_as_map_upt[OF assms] combinations2_map
    by (simp add: case_prod_unfold map_prod_def)
  then show ?thesis
    unfolding get_pairs_in_test_def realised_def get_pairs_loop_ok[OF b] by simp
qed

lemma finite_realised: "finite (realised ks t)"
  by (simp add: realised_def)

lemma newly_covered_ok:
  "length ks \<le> length t \<Longrightarrow> newly_covered ks cov t = card (realised ks t - cov)"
  by (simp add: newly_covered_def get_pairs_in_test_ok)

lemma first_best_snoc:
  assumes "first_best pre ks cov (bt, bn)"
  shows "first_best (pre @ [t]) ks cov
           (if newly_covered ks cov t > bn then (Some t, newly_covered ks cov t) else (bt, bn))"
proof (cases "newly_covered ks cov t > bn")
  case True
  have le: "\<forall>j < length pre. newly_covered ks cov (pre ! j) \<le> bn"
    using assms by (auto simp: first_best_def split: option.splits)
  have "\<exists>i < length (pre @ [t]). t = (pre @ [t]) ! i \<and>
          newly_covered ks cov t = newly_covered ks cov ((pre @ [t]) ! i) \<and> 0 < newly_covered ks cov t \<and>
          (\<forall>j < i. newly_covered ks cov ((pre @ [t]) ! j) < newly_covered ks cov t) \<and>
          (\<forall>j < length (pre @ [t]). newly_covered ks cov ((pre @ [t]) ! j) \<le> newly_covered ks cov t)"
  proof (intro exI[of _ "length pre"] conjI allI impI)
    fix j assume "j < length pre"
    then show "newly_covered ks cov ((pre @ [t]) ! j) < newly_covered ks cov t"
      using le True by (auto simp: nth_append)
  next
    fix j assume "j < length (pre @ [t])"
    then show "newly_covered ks cov ((pre @ [t]) ! j) \<le> newly_covered ks cov t"
      using le True by (cases "j < length pre") (auto simp: nth_append less_Suc_eq dest: spec[of _ j])
  qed (use True in auto)
  then show ?thesis using True by (simp add: first_best_def)
next
  case False
  show ?thesis
  proof (cases bt)
    case None
    then show ?thesis using assms False
      by (auto simp: first_best_def nth_append less_Suc_eq)
  next
    case (Some b)
    from assms Some obtain i where i: "i < length pre" "b = pre ! i"
      "bn = newly_covered ks cov (pre ! i)" "0 < bn"
      "\<forall>j < i. newly_covered ks cov (pre ! j) < bn"
      "\<forall>j < length pre. newly_covered ks cov (pre ! j) \<le> bn"
      by (auto simp: first_best_def)
    have "\<exists>i < length (pre @ [t]). b = (pre @ [t]) ! i \<and>
          bn = newly_covered ks cov ((pre @ [t]) ! i) \<and> 0 < bn \<and>
          (\<forall>j < i. newly_covered ks cov ((pre @ [t]) ! j) < bn) \<and>
          (\<forall>j < length (pre @ [t]). newly_covered ks cov ((pre @ [t]) ! j) \<le> bn)"
    proof (intro exI[of _ i] conjI allI impI)
      fix j assume "j < i"
      then show "newly_covered ks cov ((pre @ [t]) ! j) < bn"
        using i by (auto simp: nth_append)
    next
      fix j assume "j < length (pre @ [t])"
      then show "newly_covered ks cov ((pre @ [t]) ! j) \<le> bn"
        using i False by (cases "j < length pre") (auto simp: nth_append less_Suc_eq)
    qed (use i in \<open>auto simp: nth_append\<close>)
    then show ?thesis using Some False by (simp add: first_best_def)
  qed
qed

lemma scan_candidates_first_best:
  "\<forall>t \<in> set vs. length ks \<le> length t \<Longrightarrow> first_best pre ks cov b0 \<Longrightarrow>
   \<exists>b. scan_candidates vs ks cov b0 = Inr b \<and> first_best (pre @ vs) ks cov b"
proof (induction vs arbitrary: pre b0)
  case Nil
  then show ?case by simp
next
  case (Cons t vs)
  obtain bt bn where b0: "b0 = (bt, bn)" by (cases b0)
  let ?b1 = "if newly_covered ks cov t > bn then (Some t, newly_covered ks cov t) else (bt, bn)"
  have len: "length ks \<le> length t" using Cons.prems(1) by simp
  have fb: "first_best (pre @ [t]) ks cov ?b1"
    using first_best_snoc Cons.prems(2) b0 by blast
  have step: "scan_candidates (t # vs) ks cov b0 = scan_candidates vs ks cov ?b1"
    by (simp add: b0 get_pairs_in_test_ok[OF len] newly_covered_ok[OF len] Let_def)
  from Cons.IH[OF _ fb] Cons.prems(1)
  obtain b where "scan_candidates vs ks cov ?b1 = Inr b" "first_best ((pre @ [t]) @ vs) ks cov b"
    by auto
  then show ?case using step by simp
qed

lemma scan_candidates_start:
  assumes "\<forall>t \<in> set vs. length ks \<le> length t"
  shows "\<exists>b. scan_candidates vs ks cov (None, 0) = Inr b \<and> first_best vs ks cov b"
  using scan_candidates_first_best[OF assms, of "[]" cov "(None, 0)"]
  by (simp add: first_best_def)

lemma covered_by_simps [simp]:
  "covered_by ks [] = {}"
  "covered_by ks (t # ts) = realised ks t \<union> covered_by ks ts"
  "covered_by ks (ts @ us) = covered_by ks ts \<union> covered_by ks us"
  by (auto simp: covered_by_def)

lemma finite_covered_by [simp]: "finite (covered_by ks ts)"
  by (simp add: covered_by_def finite_realised)

lemma card_diff_0_subset: "finite A \<Longrightarrow> card (A - B) = 0 \<longleftrightarrow> A \<subseteq> B"
  by auto

lemma greedy_loop_result:
  "\<forall>t \<in> set vs. length ks \<le> length t \<Longrightarrow> finite cov \<Longrightarrow>
    \<exists>add. greedy_loop vs ks n cov suite = Inr (suite @ add, cov \<union> covered_by ks add)
       \<and> set add \<subseteq> set vs \<and> fresh ks cov add \<and> card cov + length add \<le> max n (card cov)
       \<and> (n \<le> card (cov \<union> covered_by ks add) \<or> covered_by ks vs \<subseteq> cov \<union> covered_by ks add)"
proof (induction vs ks n cov suite rule: greedy_loop.induct)
  case (1 vs ks n cov suite)
  note len = "1.prems"(1) and fin = "1.prems"(2)
  show ?case
  proof (cases "card cov < n")
    case False
    then have "greedy_loop vs ks n cov suite = Inr (suite, cov)" by simp
    then show ?thesis using False by (intro exI[of _ "[]"]) simp
  next
    case True
    from scan_candidates_start[OF len, of cov]
    obtain b0 where "scan_candidates vs ks cov (None, 0) = Inr b0" "first_best vs ks cov b0"
      by blast
    then obtain bt bn where sc: "scan_candidates vs ks cov (None, 0) = Inr (bt, bn)"
      and fb: "first_best vs ks cov (bt, bn)" by (cases b0) simp
    show ?thesis
    proof (cases bt)
      case None
      then have res: "greedy_loop vs ks n cov suite = Inr (suite, cov)"
        using True sc by simp
      have "\<forall>t \<in> set vs. realised ks t \<subseteq> cov"
      proof
        fix t assume t: "t \<in> set vs"
        then obtain j where "j < length vs" "t = vs ! j" by (auto simp: in_set_conv_nth)
        with fb None have "newly_covered ks cov t = 0" by (auto simp: first_best_def)
        then show "realised ks t \<subseteq> cov"
          using len t by (simp add: newly_covered_ok card_diff_0_subset finite_realised)
      qed
      then have "covered_by ks vs \<subseteq> cov" by (auto simp: covered_by_def)
      then show ?thesis using res by (intro exI[of _ "[]"]) simp
    next
      case (Some b)
      from fb Some obtain i where i: "i < length vs" "b = vs ! i" "0 < newly_covered ks cov b"
        by (auto simp: first_best_def)
      then have bmem: "b \<in> set vs" by simp
      then have blen: "length ks \<le> length b" using len by simp
      have gp: "get_pairs_in_test b ks = Inr (realised ks b)"
        by (rule get_pairs_in_test_ok[OF blen])
      have "card (realised ks b - cov) \<noteq> 0"
        using i(3) by (simp add: newly_covered_ok[OF blen])
      then have new: "\<not> realised ks b \<subseteq> cov"
        by (simp add: card_diff_0_subset finite_realised)
      have step: "greedy_loop vs ks n cov suite =
                  greedy_loop vs ks n (cov \<union> realised ks b) (suite @ [b])"
        using True sc Some gp by simp
      have fin': "finite (cov \<union> realised ks b)" using fin by (simp add: finite_realised)
      from "1.IH"[OF True sc refl Some gp len fin']
      obtain add where add:
        "greedy_loop vs ks n (cov \<union> realised ks b) (suite @ [b])
           = Inr ((suite @ [b]) @ add, (cov \<union> realised ks b) \<union> covered_by ks add)"
        "set add \<subseteq> set vs" "fresh ks (cov \<union> realised ks b) add"
        "card (cov \<union> realised ks b) + length add \<le> max n (card (cov \<union> realised ks b))"
        "n \<le> card ((cov \<union> realised ks b) \<union> covered_by ks add)
           \<or> covered_by ks vs \<subseteq> (cov \<union> realised ks b) \<union> covered_by ks add"
        by blast
      have "cov \<subset> cov \<union> realised ks b" using new by blast
      then have grow: "card cov < card (cov \<union> realised ks b)"
        using fin' by (rule psubset_card_mono[rotated])
      have eq: "(cov \<union> realised ks b) \<union> covered_by ks add = cov \<union> covered_by ks (b # add)"
        by auto
      have bound: "card cov + length (b # add) \<le> max n (card cov)"
        using add(4) grow True by simp
      show ?thesis
        apply (rule exI[of _ "b # add"])
        using step add(1,2,3,5) bmem new bound unfolding eq by simp
    qed
  qed
qed

lemma greedy_count_loop_ok:
  "\<forall>t \<in> set ts. length ks \<le> length t \<Longrightarrow>
   greedy_count_loop ts ks (cov, tcp, cnts) =
     Inr (cov \<union> covered_by ks ts, tcp @ map (realised ks) ts, cnts @ marginal ks cov ts)"
proof (induction ts arbitrary: cov tcp cnts)
  case Nil
  then show ?case by simp
next
  case (Cons t ts)
  then have len: "length ks \<le> length t" by simp
  show ?case
    using Cons.IH[of "cov \<union> realised ks t" "tcp @ [realised ks t]"] Cons.prems
    by (simp add: get_pairs_in_test_ok[OF len] Let_def Un_assoc)
qed

lemma marginal_fresh_pos:
  "finite cov \<Longrightarrow> fresh ks cov ts \<Longrightarrow> \<forall>c \<in> set (marginal ks cov ts). 0 < c"
proof (induction ts arbitrary: cov)
  case Nil
  then show ?case by simp
next
  case (Cons t ts)
  from Cons.prems have new: "\<not> realised ks t \<subseteq> cov"
    and rest: "fresh ks (cov \<union> realised ks t) ts" by simp_all
  have fin: "finite (cov \<union> realised ks t)" using Cons.prems(1) by (simp add: finite_realised)
  have "cov \<subset> cov \<union> realised ks t" using new by blast
  then have "card cov < card (cov \<union> realised ks t)"
    using fin by (rule psubset_card_mono[rotated])
  then show ?case using Cons.IH[OF fin rest] by simp
qed

lemma fresh_not_covered:
  "fresh ks cov ts \<Longrightarrow> t \<in> set ts \<Longrightarrow> \<not> realised ks t \<subseteq> cov"
  by (induction ts arbitrary: cov) auto

lemma fresh_distinct: "fresh ks cov ts \<Longrightarrow> distinct ts"
proof (induction ts arbitrary: cov)
  case Nil
  then show ?case by simp
next
  case (Cons t ts)
  then have rest: "fresh ks (cov \<union> realised ks t) ts" by simp
  have "t \<notin> set ts"
  proof
    assume "t \<in> set ts"
    from fresh_not_covered[OF rest this] show False by simp
  qed
  then show ?case using Cons.IH[OF rest] by simp
qed

lemma candidates_length:
  "\<forall>t \<in> set (product_of (values_of ps)). length (keys ps) \<le> length t"
  by (auto simp: product_of_def values_of_def keys_def dest: in_set_product_lists_length)

lemma greedy_find_result:
  "\<exists>suite. greedy_find_minimum_test_suite enum ps
             = Inr (suite, generate_pairwise_combinations enum ps)
     \<and> greedy_loop (product_of (values_of ps)) (keys ps)
          (length (generate_pairwise_combinations enum ps)) {} []
         = Inr (suite, covered_by (keys ps) suite)
     \<and> set suite \<subseteq> set (product_of (values_of ps))
     \<and> fresh (keys ps) {} suite
     \<and> length suite \<le> length (generate_pairwise_combinations enum ps)
     \<and> (length (generate_pairwise_combinations enum ps) \<le> card (covered_by (keys ps) suite)
          \<or> covered_by (keys ps) (product_of (values_of ps)) \<subseteq> covered_by (keys ps) suite)"
proof -
  from greedy_loop_result[OF candidates_length finite.emptyI,
      of ps "length (generate_pairwise_combinations enum ps)" "[]"]
  obtain add where add:
    "greedy_loop (product_of (values_of ps)) (keys ps)
        (length (generate_pairwise_combinations enum ps)) {} [] = Inr ([] @ add, {} \<union> covered_by (keys ps) add)"
    "set add \<subseteq> set (product_of (values_of ps))" "fresh (keys ps) {} add"
    "card ({} :: pair set) + length add \<le> max (length (generate_pairwise_combinations enum ps)) (card ({} :: pair set))"
    "length (generate_pairwise_combinations enum ps) \<le> card ({} \<union> covered_by (keys ps) add)
      \<or> covered_by (keys ps) (product_of (values_of ps)) \<subseteq> {} \<union> covered_by (keys ps) add"
    by blast
  show ?thesis
    apply (rule exI[of _ add])
    using add by (simp add: greedy_find_minimum_test_suite_def Let_def)
qed

lemma getitem_is_dict:
  "is_dict ps \<Longrightarrow> (k, d) \<in> set ps \<Longrightarrow> getitem ps k = d"
  by (simp add: is_dict_def getitem_def)

lemma getitem_mem:
  "k \<in> set (keys ps) \<Longrightarrow> (k, getitem ps k) \<in> set ps"
  by (auto simp: keys_def getitem_def split: option.splits dest: map_of_SomeD
      simp: map_of_eq_None_iff)

lemma sorted_keys_combinations:
  "is_dict ps \<Longrightarrow> set (combinations2 (sort (keys ps))) = name_pairs ps"
  unfolding name_pairs_def
  by (subst combinations2_sorted) (auto simp: is_dict_def keys_def)

lemma set_value_pairs:
  "set (value_pairs p1 p2 d1 d2) = {((p1, v1), (p2, v2)) | v1 v2. v1 \<in> set d1 \<and> v2 \<in> set d2}"
  unfolding value_pairs_def by auto

lemma pair_insertions_alt:
  "pair_insertions ps =
     concat (map (\<lambda>(p1, p2). value_pairs p1 p2 (getitem ps p1) (getitem ps p2))
       (combinations2 (sort (keys ps))))"
  by (simp add: pair_insertions_def value_pairs_def)

lemma set_pair_insertions:
  "set (pair_insertions ps) =
     {((n1, v1), (n2, v2)) | n1 v1 n2 v2.
        (n1, n2) \<in> set (combinations2 (sort (keys ps))) \<and>
        v1 \<in> set (getitem ps n1) \<and> v2 \<in> set (getitem ps n2)}"
proof -
  have "set (pair_insertions ps) =
      (\<Union>x \<in> set (combinations2 (sort (keys ps))).
         set (value_pairs (fst x) (snd x) (getitem ps (fst x)) (getitem ps (snd x))))"
    by (simp add: pair_insertions_alt case_prod_unfold)
  also have "\<dots> = {((n1, v1), (n2, v2)) | n1 v1 n2 v2.
        (n1, n2) \<in> set (combinations2 (sort (keys ps))) \<and>
        v1 \<in> set (getitem ps n1) \<and> v2 \<in> set (getitem ps n2)}"
    unfolding set_value_pairs by force
  finally show ?thesis .
qed

lemma pair_insertions_universe:
  assumes "is_dict ps"
  shows "set (pair_insertions ps) = pair_universe ps"
proof (intro equalityI subsetI)
  fix x assume "x \<in> set (pair_insertions ps)"
  then obtain n1 v1 n2 v2 where x: "x = ((n1, v1), (n2, v2))"
    and np: "(n1, n2) \<in> name_pairs ps"
    and v: "v1 \<in> set (getitem ps n1)" "v2 \<in> set (getitem ps n2)"
    unfolding set_pair_insertions sorted_keys_combinations[OF assms] by blast
  from np have "(n1, getitem ps n1) \<in> set ps" "(n2, getitem ps n2) \<in> set ps" "n1 < n2"
    by (auto simp: name_pairs_def getitem_mem)
  with x v show "x \<in> pair_universe ps" unfolding pair_universe_def by blast
next
  fix x assume "x \<in> pair_universe ps"
  then obtain n1 v1 n2 v2 d1 d2 where x: "x = ((n1, v1), (n2, v2))"
    and m: "(n1, d1) \<in> set ps" "(n2, d2) \<in> set ps" "n1 < n2"
    and v: "v1 \<in> set d1" "v2 \<in> set d2"
    unfolding pair_universe_def by blast
  from m have "(n1, n2) \<in> name_pairs ps" by (force simp: name_pairs_def keys_def)
  moreover have "getitem ps n1 = d1" "getitem ps n2 = d2"
    using m assms by (simp_all add: getitem_is_dict)
  ultimately show "x \<in> set (pair_insertions ps)"
    unfolding set_pair_insertions sorted_keys_combinations[OF assms] using x v by blast
qed

lemma distinct_concat_map:
  "distinct xs \<Longrightarrow> (\<And>x. x \<in> set xs \<Longrightarrow> distinct (f x)) \<Longrightarrow>
   (\<And>x y. x \<in> set xs \<Longrightarrow> y \<in> set xs \<Longrightarrow> x \<noteq> y \<Longrightarrow> set (f x) \<inter> set (f y) = {}) \<Longrightarrow>
   distinct (concat (map f xs))"
proof (induction xs)
  case Nil
  then show ?case by simp
next
  case (Cons a xs)
  have "set (f a) \<inter> set (f y) = {}" if "y \<in> set xs" for y
    using Cons.prems(1) Cons.prems(3)[of a y] that by auto
  moreover have "distinct (concat (map f xs))"
    using Cons.prems by (intro Cons.IH) auto
  ultimately show ?case using Cons.prems(2)[of a] by auto
qed

lemma length_concat_map: "length (concat (map f xs)) = sum_list (map (\<lambda>x. length (f x)) xs)"
  by (induction xs) auto

lemma length_value_pairs: "length (value_pairs p1 p2 d1 d2) = length d1 * length d2"
  by (induction d1) (auto simp: value_pairs_def)

lemma distinct_value_pairs:
  "distinct d1 \<Longrightarrow> distinct d2 \<Longrightarrow> distinct (value_pairs p1 p2 d1 d2)"
  unfolding value_pairs_def
  by (rule distinct_concat_map) (auto simp: distinct_map inj_on_def)

lemma length_pair_insertions:
  assumes "is_dict ps"
  shows "length (pair_insertions ps) =
     (\<Sum>(n1, n2) \<in> name_pairs ps. length (getitem ps n1) * length (getitem ps n2))"
proof -
  have d: "distinct (combinations2 (sort (keys ps)))"
    using assms by (intro distinct_combinations2) (simp add: is_dict_def keys_def)
  have "length (pair_insertions ps) =
      sum_list (map (\<lambda>(n1, n2). length (getitem ps n1) * length (getitem ps n2))
        (combinations2 (sort (keys ps))))"
    unfolding pair_insertions_alt length_concat_map
    by (simp add: case_prod_unfold length_value_pairs)
  also have "\<dots> = (\<Sum>(n1, n2) \<in> set (combinations2 (sort (keys ps))).
        length (getitem ps n1) * length (getitem ps n2))"
    by (rule sum_list_distinct_conv_sum_set[OF d])
  finally show ?thesis unfolding sorted_keys_combinations[OF assms] .
qed

lemma distinct_pair_insertions:
  assumes "is_dict ps" and dv: "\<forall>(k, d) \<in> set ps. distinct d"
  shows "distinct (pair_insertions ps)"
  unfolding pair_insertions_alt
proof (rule distinct_concat_map)
  show "distinct (combinations2 (sort (keys ps)))"
    using assms by (intro distinct_combinations2) (simp add: is_dict_def keys_def)
next
  fix x assume x: "x \<in> set (combinations2 (sort (keys ps)))"
  obtain a b where ab: "x = (a, b)" by (cases x)
  from x ab have "a \<in> set (keys ps)" "b \<in> set (keys ps)"
    by (auto dest: combinations2_mem)
  then have "(a, getitem ps a) \<in> set ps" "(b, getitem ps b) \<in> set ps"
    by (simp_all add: getitem_mem)
  then have "distinct (getitem ps a)" "distinct (getitem ps b)"
    using dv by blast+
  then show "distinct (case x of (p1, p2) \<Rightarrow> value_pairs p1 p2 (getitem ps p1) (getitem ps p2))"
    by (simp add: ab distinct_value_pairs)
next
  fix x y :: "name \<times> name"
  assume ne: "x \<noteq> y"
  obtain a b where ab: "x = (a, b)" by (cases x)
  obtain c d where cd: "y = (c, d)" by (cases y)
  have "set (value_pairs a b (getitem ps a) (getitem ps b))
      \<inter> set (value_pairs c d (getitem ps c) (getitem ps d)) = {}"
    using ne unfolding set_value_pairs ab cd by blast
  then show "set (case x of (p1, p2) \<Rightarrow> value_pairs p1 p2 (getitem ps p1) (getitem ps p2))
      \<inter> set (case y of (p1, p2) \<Rightarrow> value_pairs p1 p2 (getitem ps p1) (getitem ps p2)) = {}"
    by (simp add: ab cd)
qed

lemma candidate_product: "t \<in> set (product_of (values_of ps)) \<longleftrightarrow> candidate ps t"
  by (simp add: product_of_def candidate_def product_lists_set)

lemma candidate_length: "candidate ps t \<Longrightarrow> length t = length (keys ps)"
  by (auto simp: candidate_def values_of_def keys_def dest: list_all2_lengthD)

lemma candidate_zip:
  assumes "candidate ps t" and "(k, v) \<in> set (zip (keys ps) t)"
  shows "\<exists>d. (k, d) \<in> set ps \<and> v \<in> set d"
proof -
  from assms(2) obtain n where n: "keys ps ! n = k" "t ! n = v" "n < length (keys ps)" "n < length t"
    by (auto simp: in_set_zip)
  then have np: "n < length ps" by (simp add: keys_def)
  have "v \<in> set (values_of ps ! n)"
    using assms(1) n(2,4) unfolding candidate_def by (auto dest: list_all2_nthD)
  moreover have "ps ! n = (k, values_of ps ! n)"
    using n(1) np by (simp add: keys_def values_of_def prod_eq_iff)
  ultimately show ?thesis using np by (metis nth_mem)
qed

lemma sorted_pair_names:
  "fst a \<noteq> fst b \<Longrightarrow> sorted_pair a b = (if fst b < fst a then (b, a) else (a, b))"
  by (auto simp: sorted_pair_def less_prod_def)

lemma realised_subset_universe:
  assumes d: "is_dict ps" and c: "candidate ps t"
  shows "realised (keys ps) t \<subseteq> pair_universe ps"
proof
  fix x assume "x \<in> realised (keys ps) t"
  then obtain a b where x: "x = sorted_pair a b"
    and ab: "(a, b) \<in> set (combinations2 (zip (keys ps) t))"
    by (auto simp: realised_def)
  have "distinct (map fst (zip (keys ps) t))"
    using d by (simp add: candidate_length[OF c] is_dict_def keys_def)
  from combinations2_fst_neq[OF ab this] have ne: "fst a \<noteq> fst b" .
  from combinations2_mem[OF ab] have "a \<in> set (zip (keys ps) t)" "b \<in> set (zip (keys ps) t)"
    by simp_all
  then obtain da db where da: "(fst a, da) \<in> set ps" "snd a \<in> set da"
    and db: "(fst b, db) \<in> set ps" "snd b \<in> set db"
    using candidate_zip[OF c, of "fst a" "snd a"] candidate_zip[OF c, of "fst b" "snd b"]
    by auto
  show "x \<in> pair_universe ps"
  proof (cases "fst b < fst a")
    case True
    then have "x = ((fst b, snd b), (fst a, snd a))" using x ne by (simp add: sorted_pair_names)
    then show ?thesis unfolding pair_universe_def using da db True by blast
  next
    case False
    then have lt: "fst a < fst b" using ne by simp
    have "x = ((fst a, snd a), (fst b, snd b))" using x ne False by (simp add: sorted_pair_names)
    then show ?thesis unfolding pair_universe_def using da db lt by blast
  qed
qed

lemma covered_by_subset_universe:
  "is_dict ps \<Longrightarrow> \<forall>t \<in> set ts. candidate ps t \<Longrightarrow> covered_by (keys ps) ts \<subseteq> pair_universe ps"
  using realised_subset_universe by (fastforce simp: covered_by_def)

lemma universe_realised:
  assumes d: "is_dict ps" and ne: "[] \<notin> set (values_of ps)"
    and x: "x \<in> pair_universe ps"
  shows "\<exists>t. candidate ps t \<and> x \<in> realised (keys ps) t"
proof -
  from x obtain n1 v1 n2 v2 d1 d2 where xe: "x = ((n1, v1), (n2, v2))"
    and m: "(n1, d1) \<in> set ps" "(n2, d2) \<in> set ps" "n1 < n2"
    and v: "v1 \<in> set d1" "v2 \<in> set d2"
    unfolding pair_universe_def by blast
  define pick where "pick = (\<lambda>e :: name \<times> val list.
     if fst e = n1 then v1 else if fst e = n2 then v2 else hd (snd e))"
  define t where "t = map pick ps"
  have ok: "pick e \<in> set (snd e)" if "e \<in> set ps" for e
  proof -
    have "snd e \<noteq> []" using that ne by (force simp: values_of_def)
    moreover have "snd e = d1" if "fst e = n1"
      using that \<open>e \<in> set ps\<close> m(1) d by (metis getitem_is_dict prod.collapse)
    moreover have "snd e = d2" if "fst e = n2"
      using that \<open>e \<in> set ps\<close> m(2) d by (metis getitem_is_dict prod.collapse)
    ultimately show ?thesis using v by (auto simp: pick_def)
  qed
  have c: "candidate ps t"
    unfolding candidate_def t_def values_of_def
    by (simp add: list_all2_map1 list_all2_map2 list_all2_same ok)
  have z: "zip (keys ps) t = map (\<lambda>e. (fst e, pick e)) ps"
    unfolding keys_def t_def by (simp add: zip_map_map zip_same_conv_map)
  have "(n1, v1) \<in> set (zip (keys ps) t)"
    unfolding z using m(1) by (force simp: pick_def)
  moreover have "(n2, v2) \<in> set (zip (keys ps) t)"
    unfolding z using m(2,3) by (force simp: pick_def)
  moreover have "(n1, v1) \<noteq> (n2, v2)" using m(3) by auto
  ultimately have either: "((n1, v1), (n2, v2)) \<in> set (combinations2 (zip (keys ps) t))
      \<or> ((n2, v2), (n1, v1)) \<in> set (combinations2 (zip (keys ps) t))"
    by (rule combinations2_either)
  have nlt: "\<not> n2 < n1" "n1 \<noteq> n2" using m(3) less_asym by blast+
  have sp: "sorted_pair (n1, v1) (n2, v2) = x" "sorted_pair (n2, v2) (n1, v1) = x"
    using m(3) nlt xe by (simp_all add: sorted_pair_names)
  from either sp have "x \<in> realised (keys ps) t"
    unfolding realised_def by force
  with c show ?thesis by blast
qed

lemma universe_subset_candidates:
  assumes "is_dict ps" and "[] \<notin> set (values_of ps)"
  shows "pair_universe ps \<subseteq> covered_by (keys ps) (product_of (values_of ps))"
  using universe_realised[OF assms] by (fastforce simp: covered_by_def candidate_product)

lemma finite_pair_universe: "is_dict ps \<Longrightarrow> finite (pair_universe ps)"
  by (metis pair_insertions_universe List.finite_set)

lemma length_universe:
  "is_dict ps \<Longrightarrow> set_listing enum (pair_insertions ps) \<Longrightarrow>
   length (generate_pairwise_combinations enum ps) = card (pair_universe ps)
   \<and> set (generate_pairwise_combinations enum ps) = pair_universe ps"
  by (metis generate_pairwise_combinations_def set_listing_def distinct_card pair_insertions_universe)

lemma product_of_empty_domain: "[] \<in> set xss \<Longrightarrow> product_of xss = []"
  unfolding product_of_def by (induction xss) auto

lemma greedy_loop_full_coverage:
  assumes d: "is_dict ps" and l: "set_listing enum (pair_insertions ps)"
    and ne: "[] \<notin> set (values_of ps)"
    and run: "greedy_loop (product_of (values_of ps)) (keys ps)
          (length (generate_pairwise_combinations enum ps)) {} [] = Inr (suite, covered)"
  shows "covered = pair_universe ps"
proof -
  from greedy_find_result[of enum ps] run
  have cov: "covered = covered_by (keys ps) suite"
    and sub: "set suite \<subseteq> set (product_of (values_of ps))"
    and ex: "length (generate_pairwise_combinations enum ps) \<le> card (covered_by (keys ps) suite)
          \<or> covered_by (keys ps) (product_of (values_of ps)) \<subseteq> covered_by (keys ps) suite"
    by auto
  have le: "covered_by (keys ps) suite \<subseteq> pair_universe ps"
    using sub by (intro covered_by_subset_universe[OF d]) (auto simp: candidate_product)
  from ex show ?thesis
  proof
    assume "length (generate_pairwise_combinations enum ps) \<le> card (covered_by (keys ps) suite)"
    then have "card (pair_universe ps) \<le> card (covered_by (keys ps) suite)"
      using length_universe[OF d l] by simp
    from card_seteq[OF finite_pair_universe[OF d] le this] show ?thesis using cov by simp
  next
    assume "covered_by (keys ps) (product_of (values_of ps)) \<subseteq> covered_by (keys ps) suite"
    with universe_subset_candidates[OF d ne] le show ?thesis using cov by blast
  qed
qed

lemma algo_test_pairs_eq:
  "algo_test_pairs cs ap acc = acc \<union> (set (map (\<lambda>(a, b). sorted_pair a b) cs) \<inter> set ap)"
  by (induction cs ap acc rule: algo_test_pairs.induct) (auto simp: Let_def)

lemma algo_test_pairs_realised:
  "algo_test_pairs (combinations2 (zip ks t)) ap {} = realised ks t \<inter> set ap"
  by (simp add: algo_test_pairs_eq realised_def)

lemma algo_count_loop_universe:
  "algo_count_loop ts ap ks (cov, tcp, cnts) = (cov', tcp', cnts') \<Longrightarrow>
   cov \<subseteq> set ap \<Longrightarrow> \<forall>s \<in> set tcp. s \<subseteq> set ap \<Longrightarrow>
   cov' \<subseteq> set ap \<and> (\<forall>s \<in> set tcp'. s \<subseteq> set ap)"
proof (induction ts arbitrary: cov tcp cnts)
  case Nil
  then show ?case by simp
next
  case (Cons t ts)
  let ?tp = "realised ks t \<inter> set ap"
  from Cons.prems(1)
  have "algo_count_loop ts ap ks (cov \<union> ?tp, tcp @ [?tp],
          cnts @ [int (card (cov \<union> ?tp)) - int (card cov)]) = (cov', tcp', cnts')"
    by (simp add: Let_def algo_test_pairs_realised)
  from Cons.IH[OF this] Cons.prems(2,3) show ?case by auto
qed

lemma algo_count_unique_pairs_universe:
  "algo_count_unique_pairs suite all_pairs ps = (covered, test_case_pairs, counts) \<Longrightarrow>
   covered \<subseteq> set all_pairs \<and> (\<forall>s \<in> set test_case_pairs. s \<subseteq> set all_pairs)"
  unfolding algo_count_unique_pairs_def by (erule algo_count_loop_universe) simp_all

lemma count_loops_agree:
  "\<forall>t \<in> set ts. length ks \<le> length t \<and> realised ks t \<subseteq> set ap \<Longrightarrow>
   greedy_count_loop ts ks st = Inr (algo_count_loop ts ap ks st)"
proof (induction ts arbitrary: st)
  case Nil
  then show ?case by simp
next
  case (Cons t ts)
  obtain cov tcp cnts where st: "st = (cov, tcp, cnts)" by (cases st)
  from Cons.prems have len: "length ks \<le> length t" and sub: "realised ks t \<subseteq> set ap"
    by simp_all
  from sub have eq: "realised ks t \<inter> set ap = realised ks t" by blast
  show ?case
    using Cons.IH Cons.prems
    by (simp add: st get_pairs_in_test_ok[OF len] algo_test_pairs_realised eq Let_def)
qed

lemma algo_validation:
  "algo_find_minimum_test_suite solver enum PyNotDict = Inl TypeError"
  "algo_find_minimum_test_suite solver enum (PyDict []) = Inl ValueError"
  "items \<noteq> [] \<Longrightarrow> PyNotList \<in> set (map snd items) \<Longrightarrow>
     algo_find_minimum_test_suite solver enum (PyDict items) = Inl TypeError"
proof -
  show "algo_find_minimum_test_suite solver enum PyNotDict = Inl TypeError"
    by (simp add: algo_find_minimum_test_suite_def validate_def)
  show "algo_find_minimum_test_suite solver enum (PyDict []) = Inl ValueError"
    by (simp add: algo_find_minimum_test_suite_def validate_def)
  assume ne: "items \<noteq> []" and nl: "PyNotList \<in> set (map snd items)"
  have "\<not> list_all isinstance_list (map snd items)"
    using nl unfolding list_all_iff by (metis isinstance_list.simps(2))
  then show "algo_find_minimum_test_suite solver enum (PyDict items) = Inl TypeError"
    using ne by (simp add: algo_find_minimum_test_suite_def validate_def)
qed

lemma greedy_loop_trace:
  "\<forall>t \<in> set vs. length ks \<le> length t \<Longrightarrow>
    \<exists>add. greedy_loop vs ks n cov suite = Inr (suite @ add, cov \<union> covered_by ks add)
       \<and> selected_run vs ks n cov add"
proof (induction vs ks n cov suite rule: greedy_loop.induct)
  case (1 vs ks n cov suite)
  note len = "1.prems"(1)
  show ?case
  proof (cases "card cov < n")
    case False
    then have "greedy_loop vs ks n cov suite = Inr (suite, cov)" by simp
    then show ?thesis using False by (intro exI[of _ "[]"]) simp
  next
    case True
    from scan_candidates_start[OF len, of cov]
    obtain b0 where "scan_candidates vs ks cov (None, 0) = Inr b0" "first_best vs ks cov b0"
      by blast
    then obtain bt bn where sc: "scan_candidates vs ks cov (None, 0) = Inr (bt, bn)"
      and fb: "first_best vs ks cov (bt, bn)" by (cases b0) simp
    show ?thesis
    proof (cases bt)
      case None
      then have res: "greedy_loop vs ks n cov suite = Inr (suite, cov)"
        using True sc by simp
      from fb None have "bn = 0" by (simp add: first_best_def)
      with sc None have "scan_candidates vs ks cov (None, 0) = Inr (None, 0)" by simp
      then show ?thesis using res by (intro exI[of _ "[]"]) simp
    next
      case (Some b)
      from fb Some obtain i where i: "i < length vs" "b = vs ! i"
        by (auto simp: first_best_def)
      then have blen: "length ks \<le> length b" using len by simp
      have gp: "get_pairs_in_test b ks = Inr (realised ks b)"
        by (rule get_pairs_in_test_ok[OF blen])
      have step: "greedy_loop vs ks n cov suite =
                  greedy_loop vs ks n (cov \<union> realised ks b) (suite @ [b])"
        using True sc Some gp by simp
      from "1.IH"[OF True sc refl Some gp len]
      obtain add where add:
        "greedy_loop vs ks n (cov \<union> realised ks b) (suite @ [b])
           = Inr ((suite @ [b]) @ add, (cov \<union> realised ks b) \<union> covered_by ks add)"
        "selected_run vs ks n (cov \<union> realised ks b) add"
        by blast
      have eq: "(cov \<union> realised ks b) \<union> covered_by ks add = cov \<union> covered_by ks (b # add)"
        by auto
      have "selected_run vs ks n cov (b # add)"
        using True sc Some add(2) by simp
      then show ?thesis
        apply (intro exI[of _ "b # add"])
        using step add(1) unfolding eq by simp
    qed
  qed
qed

lemma selected_run_nth:
  "selected_run vs ks n cov ts \<Longrightarrow> k < length ts \<Longrightarrow>
   card (cov \<union> covered_by ks (take k ts)) < n
   \<and> (\<exists>m. scan_candidates vs ks (cov \<union> covered_by ks (take k ts)) (None, 0)
       = Inr (Some (ts ! k), m))"
proof (induction ts arbitrary: cov k)
  case Nil
  then show ?case by simp
next
  case (Cons t ts)
  show ?case
  proof (cases k)
    case 0
    then show ?thesis using Cons.prems(1) by simp
  next
    case (Suc k')
    then have "k' < length ts" using Cons.prems(2) by simp
    from Cons.IH[OF _ this, of "cov \<union> realised ks t"] Cons.prems(1)
    show ?thesis by (simp add: Suc Un_assoc)
  qed
qed

lemma selected_run_end:
  "selected_run vs ks n cov ts \<Longrightarrow>
   n \<le> card (cov \<union> covered_by ks ts)
   \<or> scan_candidates vs ks (cov \<union> covered_by ks ts) (None, 0) = Inr (None, 0)"
proof (induction ts arbitrary: cov)
  case Nil
  then show ?case by simp
next
  case (Cons t ts)
  from Cons.IH[of "cov \<union> realised ks t"] Cons.prems show ?case by (simp add: Un_assoc)
qed

lemma greedy_find_trace:
  "\<exists>suite. greedy_find_minimum_test_suite enum ps
             = Inr (suite, generate_pairwise_combinations enum ps)
     \<and> selected_run (product_of (values_of ps)) (keys ps)
          (length (generate_pairwise_combinations enum ps)) {} suite"
proof -
  from greedy_loop_trace[OF candidates_length,
      of ps "length (generate_pairwise_combinations enum ps)" "{}" "[]"]
  obtain add where
    "greedy_loop (product_of (values_of ps)) (keys ps)
        (length (generate_pairwise_combinations enum ps)) {} []
       = Inr ([] @ add, {} \<union> covered_by (keys ps) add)"
    "selected_run (product_of (values_of ps)) (keys ps)
          (length (generate_pairwise_combinations enum ps)) {} add"
    by blast
  then show ?thesis
    by (intro exI[of _ add]) (simp add: greedy_find_minimum_test_suite_def Let_def)
qed

section \<open>Claims\<close>

text \<open>
  Claim C1. For a parameter map (a dict: no two equal keys) whose domains are lists of
  distinct value labels, and any enumeration of the set that was built,
  \<open>generate_pairwise_combinations\<close> returns, as a set, exactly the pair universe: the
  pairs \<open>((name1, value1), (name2, value2))\<close> with \<open>name1 < name2\<close> two
  parameter names and the values taken from their two domains. The number of pairs
  returned is the sum, over the unordered pairs of distinct parameter names, of the
  product of the sizes of the two domains.
\<close>

theorem generate_pairwise_combinations_universe:
  assumes "is_dict ps" and dv: "list_all distinct (values_of ps)"
    and "set_listing enum (pair_insertions ps)"
  shows "set (generate_pairwise_combinations enum ps) = pair_universe ps
     \<and> length (generate_pairwise_combinations enum ps) =
         (\<Sum>(n1, n2) \<in> name_pairs ps. length (getitem ps n1) * length (getitem ps n2))"
proof -
  have dd: "\<forall>(k, d) \<in> set ps. distinct d"
    using dv by (auto simp: list_all_iff values_of_def)
  have "length (enum (pair_insertions ps)) = card (set (pair_insertions ps))"
    using assms(3) by (metis set_listing_def distinct_card)
  also have "\<dots> = length (pair_insertions ps)"
    by (rule distinct_card[OF distinct_pair_insertions[OF assms(1) dd]])
  finally have "length (generate_pairwise_combinations enum ps) =
     (\<Sum>(n1, n2) \<in> name_pairs ps. length (getitem ps n1) * length (getitem ps n2))"
    by (simp add: generate_pairwise_combinations_def length_pair_insertions[OF assms(1)])
  moreover have "set (generate_pairwise_combinations enum ps) = pair_universe ps"
    using assms(3) pair_insertions_universe[OF assms(1)]
    by (simp add: generate_pairwise_combinations_def set_listing_def)
  ultimately show ?thesis by simp
qed

theorem generate_pairwise_combinations_universe_witness:
  "is_dict [(''B'', [''x'', ''y'']), (''A'', [''u''])]
   \<and> list_all distinct (values_of [(''B'', [''x'', ''y'']), (''A'', [''u''])])
   \<and> set_listing remdups (pair_insertions [(''B'', [''x'', ''y'']), (''A'', [''u''])])
   \<and> generate_pairwise_combinations remdups [(''B'', [''x'', ''y'']), (''A'', [''u''])]
        = [((''A'', ''u''), (''B'', ''x'')), ((''A'', ''u''), (''B'', ''y''))]
   \<and> pair_universe [(''B'', [''x'', ''y'']), (''A'', [''u''])]
        = {((''A'', ''u''), (''B'', ''x'')), ((''A'', ''u''), (''B'', ''y''))}
   \<and> (\<Sum>(n1, n2) \<in> name_pairs [(''B'', [''x'', ''y'']), (''A'', [''u''])].
         length (getitem [(''B'', [''x'', ''y'']), (''A'', [''u''])] n1)
         * length (getitem [(''B'', [''x'', ''y'']), (''A'', [''u''])] n2)) = 2"
proof -
  let ?ps = "[(''B'', [''x'', ''y'']), (''A'', [''u''])]"
  have h1: "is_dict ?ps" by code_simp
  have h2: "list_all distinct (values_of ?ps)" by code_simp
  have h3: "set_listing remdups (pair_insertions ?ps)" by code_simp
  have v: "generate_pairwise_combinations remdups ?ps
        = [((''A'', ''u''), (''B'', ''x'')), ((''A'', ''u''), (''B'', ''y''))]"
    by code_simp
  from generate_pairwise_combinations_universe[OF h1 h2 h3]
  show ?thesis using h1 h2 h3 unfolding v by auto
qed

text \<open>
  Claim C2. If the greedy solver's covered set at the exit of its main loop equals the
  pair universe it returns, then the solver returns the suite of that loop, the analyzer
  of greedyalgo.py runs on that suite without error, and the union of the per-test-case
  pair sets it computes (and its covered set) equals the pair universe. The hypotheses of
  the claim on the domains (non-empty, duplicate-free) are not needed for this; by
  \<open>greedy_loop_full_coverage\<close> they make the loop always exit with full coverage.
\<close>

theorem greedy_full_coverage_analyzer_union:
  assumes run: "greedy_loop (product_of (values_of ps)) (keys ps)
          (length (generate_pairwise_combinations enum ps)) {} [] = Inr (suite, covered)"
    and full: "covered = set (generate_pairwise_combinations enum ps)"
  shows "greedy_find_minimum_test_suite enum ps
           = Inr (suite, generate_pairwise_combinations enum ps)
     \<and> (\<exists>covered_pairs test_case_pairs new_unique_counts.
          greedy_count_unique_pairs suite (generate_pairwise_combinations enum ps) ps
            = Inr (covered_pairs, test_case_pairs, new_unique_counts)
        \<and> \<Union> (set test_case_pairs) = set (generate_pairwise_combinations enum ps)
        \<and> covered_pairs = set (generate_pairwise_combinations enum ps))"
proof -
  from greedy_find_result[of enum ps] run
  have ret: "greedy_find_minimum_test_suite enum ps
           = Inr (suite, generate_pairwise_combinations enum ps)"
    and cov: "covered = covered_by (keys ps) suite"
    and sub: "set suite \<subseteq> set (product_of (values_of ps))"
    by auto
  have len: "\<forall>t \<in> set suite. length (keys ps) \<le> length t"
    using sub candidates_length by blast
  have cnt: "greedy_count_unique_pairs suite (generate_pairwise_combinations enum ps) ps
     = Inr (covered_by (keys ps) suite, map (realised (keys ps)) suite, marginal (keys ps) {} suite)"
    unfolding greedy_count_unique_pairs_def using greedy_count_loop_ok[OF len, of "{}" "[]" "[]"]
    by simp
  have "\<Union> (set (map (realised (keys ps)) suite)) = covered_by (keys ps) suite"
    by (simp add: covered_by_def)
  with ret cnt cov full show ?thesis by simp
qed

theorem greedy_full_coverage_analyzer_union_witness:
  "greedy_loop (product_of (values_of [(''A'', [''a'', ''b'']), (''B'', [''c''])]))
     (keys [(''A'', [''a'', ''b'']), (''B'', [''c''])])
     (length (generate_pairwise_combinations remdups [(''A'', [''a'', ''b'']), (''B'', [''c''])]))
     {} []
   = Inr ([[''a'', ''c''], [''b'', ''c'']],
          set (generate_pairwise_combinations remdups [(''A'', [''a'', ''b'']), (''B'', [''c''])]))
   \<and> greedy_find_minimum_test_suite remdups [(''A'', [''a'', ''b'']), (''B'', [''c''])]
       = Inr ([[''a'', ''c''], [''b'', ''c'']],
           generate_pairwise_combinations remdups [(''A'', [''a'', ''b'']), (''B'', [''c''])])"
proof -
  let ?ps = "[(''A'', [''a'', ''b'']), (''B'', [''c''])]"
  have run: "greedy_loop (product_of (values_of ?ps)) (keys ?ps)
     (length (generate_pairwise_combinations remdups ?ps)) {} []
   = Inr ([[''a'', ''c''], [''b'', ''c'']], set (generate_pairwise_combinations remdups ?ps))"
    by code_simp
  from greedy_full_coverage_analyzer_union[OF run refl] run show ?thesis by blast
qed

text \<open>
  Claim C3, as stated, fails. With the map \<open>{A: [a], B: [b], C: []}\<close> the candidate
  space is empty, the loop leaves by its \<open>break\<close> with nothing covered although the
  universe holds the pair \<open>((A, a), (B, b))\<close>, and the solver returns normally the
  pair (suite, all_pairs), with no error and no status, as it does on full coverage.
\<close>

theorem greedy_incomplete_returned_silently:
  "greedy_loop (product_of (values_of [(''A'', [''a'']), (''B'', [''b'']), (''C'', [])]))
     (keys [(''A'', [''a'']), (''B'', [''b'']), (''C'', [])])
     (length (generate_pairwise_combinations remdups
        [(''A'', [''a'']), (''B'', [''b'']), (''C'', [])])) {} []
   = Inr ([], {})
   \<and> greedy_find_minimum_test_suite remdups [(''A'', [''a'']), (''B'', [''b'']), (''C'', [])]
       = Inr ([], [((''A'', ''a''), (''B'', ''b''))])"
  by code_simp

text \<open>
  Claim C3, amended. When the main loop of the greedy solver ends with a covered set
  other than the pair universe, the solver still returns normally the pair
  (suite, all_pairs); this happens only when some domain is the empty list, and then the
  returned suite is empty while the returned universe is not. (The map is a dict and
  \<open>enum\<close> enumerates the set that was built.)
\<close>

theorem greedy_incomplete_only_empty_suite:
  assumes d: "is_dict ps" and l: "set_listing enum (pair_insertions ps)"
    and run: "greedy_loop (product_of (values_of ps)) (keys ps)
          (length (generate_pairwise_combinations enum ps)) {} [] = Inr (suite, covered)"
    and inc: "covered \<noteq> set (generate_pairwise_combinations enum ps)"
  shows "greedy_find_minimum_test_suite enum ps = Inr ([], generate_pairwise_combinations enum ps)
     \<and> suite = [] \<and> covered = {}
     \<and> generate_pairwise_combinations enum ps \<noteq> []
     \<and> [] \<in> set (values_of ps)"
proof -
  have e: "[] \<in> set (values_of ps)"
  proof (rule ccontr)
    assume "[] \<notin> set (values_of ps)"
    from greedy_loop_full_coverage[OF d l this run] inc length_universe[OF d l]
    show False by simp
  qed
  from greedy_find_result[of enum ps] run
  have ret: "greedy_find_minimum_test_suite enum ps
           = Inr (suite, generate_pairwise_combinations enum ps)"
    and cov: "covered = covered_by (keys ps) suite"
    and sub: "set suite \<subseteq> set (product_of (values_of ps))"
    by auto
  from sub product_of_empty_domain[OF e] have s: "suite = []" by simp
  with cov have c: "covered = {}" by simp
  with inc have "generate_pairwise_combinations enum ps \<noteq> []" by auto
  with ret s c e show ?thesis by simp
qed

theorem greedy_incomplete_only_empty_suite_witness:
  "is_dict [(''A'', [''a'']), (''B'', [''b'']), (''C'', [])]
   \<and> set_listing remdups (pair_insertions [(''A'', [''a'']), (''B'', [''b'']), (''C'', [])])
   \<and> ({} :: pair set) \<noteq> set (generate_pairwise_combinations remdups
          [(''A'', [''a'']), (''B'', [''b'']), (''C'', [])])
   \<and> greedy_find_minimum_test_suite remdups [(''A'', [''a'']), (''B'', [''b'']), (''C'', [])]
       = Inr ([], generate_pairwise_combinations remdups
           [(''A'', [''a'']), (''B'', [''b'']), (''C'', [])])
   \<and> [] \<in> set (values_of [(''A'', [''a'']), (''B'', [''b'']), (''C'', [])])"
proof -
  let ?ps = "[(''A'', [''a'']), (''B'', [''b'']), (''C'', [])]"
  have h1: "is_dict ?ps" by code_simp
  have h2: "set_listing remdups (pair_insertions ?ps)" by code_simp
  have h3: "greedy_loop (product_of (values_of ?ps)) (keys ?ps)
     (length (generate_pairwise_combinations remdups ?ps)) {} [] = Inr ([], {})"
    by code_simp
  have h4: "({} :: pair set) \<noteq> set (generate_pairwise_combinations remdups ?ps)"
    by code_simp
  from greedy_incomplete_only_empty_suite[OF h1 h2 h3 h4] h1 h2 h4 show ?thesis by blast
qed

text \<open>
  Claim C4 holds for the exact solver (\<open>algo_validation\<close>: a non-dict, the empty dict
  and a dict with a value that is not a list are rejected before anything else is
  computed) and fails for the greedy solver, whose body has no check at all: on the
  empty mapping it computes no key, the one empty candidate and the empty universe, skips
  its loop and returns the empty suite with the empty universe.
\<close>

theorem greedy_accepts_empty_mapping:
  "greedy_find_minimum_test_suite remdups [] = Inr ([], [])"
  by code_simp

text \<open>
  Claim C5, as stated, fails in its second sentence. For the map
  \<open>{B: [b1, b2], A: [a1, a2], C: [c1, c2]}\<close> the second iteration scans with the
  pairs of the first test case \<open>(b1, a1, c1)\<close> covered; the counts of the first four
  candidates are 0, 2, 2, 3. The candidate at position 1, \<open>(b1, a1, c2)\<close>, is the first
  one whose count is positive and strictly greater than every earlier candidate's count,
  but the scan selects the candidate at position 3, \<open>(b1, a2, c2)\<close>, which is the
  second test case of the returned suite.
\<close>

theorem greedy_selects_later_maximum:
  "greedy_find_minimum_test_suite remdups
     [(''B'', [''b1'', ''b2'']), (''A'', [''a1'', ''a2'']), (''C'', [''c1'', ''c2''])]
   = Inr ([[''b1'', ''a1'', ''c1''], [''b1'', ''a2'', ''c2''],
           [''b2'', ''a1'', ''c2''], [''b2'', ''a2'', ''c1'']],
          generate_pairwise_combinations remdups
            [(''B'', [''b1'', ''b2'']), (''A'', [''a1'', ''a2'']), (''C'', [''c1'', ''c2''])])
   \<and> get_pairs_in_test [''b1'', ''a1'', ''c1'']
        (keys [(''B'', [''b1'', ''b2'']), (''A'', [''a1'', ''a2'']), (''C'', [''c1'', ''c2''])])
      = Inr {((''A'', ''a1''), (''B'', ''b1'')), ((''B'', ''b1''), (''C'', ''c1'')),
             ((''A'', ''a1''), (''C'', ''c1''))}
   \<and> scan_candidates
        (product_of (values_of
          [(''B'', [''b1'', ''b2'']), (''A'', [''a1'', ''a2'']), (''C'', [''c1'', ''c2''])]))
        (keys [(''B'', [''b1'', ''b2'']), (''A'', [''a1'', ''a2'']), (''C'', [''c1'', ''c2''])])
        {((''A'', ''a1''), (''B'', ''b1'')), ((''B'', ''b1''), (''C'', ''c1'')),
         ((''A'', ''a1''), (''C'', ''c1''))} (None, 0)
      = Inr (Some [''b1'', ''a2'', ''c2''], 3)
   \<and> exceeds_earlier
        (product_of (values_of
          [(''B'', [''b1'', ''b2'']), (''A'', [''a1'', ''a2'']), (''C'', [''c1'', ''c2''])]))
        (keys [(''B'', [''b1'', ''b2'']), (''A'', [''a1'', ''a2'']), (''C'', [''c1'', ''c2''])])
        {((''A'', ''a1''), (''B'', ''b1'')), ((''B'', ''b1''), (''C'', ''c1'')),
         ((''A'', ''a1''), (''C'', ''c1''))} 1
   \<and> product_of (values_of
          [(''B'', [''b1'', ''b2'']), (''A'', [''a1'', ''a2'']), (''C'', [''c1'', ''c2''])]) ! 1
      = [''b1'', ''a1'', ''c2'']
   \<and> product_of (values_of
          [(''B'', [''b1'', ''b2'']), (''A'', [''a1'', ''a2'']), (''C'', [''c1'', ''c2''])]) ! 3
      = [''b1'', ''a2'', ''c2'']"
proof -
  let ?ps = "[(''B'', [''b1'', ''b2'']), (''A'', [''a1'', ''a2'']), (''C'', [''c1'', ''c2''])]"
  let ?cov = "{((''A'', ''a1''), (''B'', ''b1'')), ((''B'', ''b1''), (''C'', ''c1'')),
         ((''A'', ''a1''), (''C'', ''c1''))} :: pair set"
  let ?vs = "product_of (values_of ?ps)"
  have run: "greedy_find_minimum_test_suite remdups ?ps
      = Inr ([[''b1'', ''a1'', ''c1''], [''b1'', ''a2'', ''c2''],
           [''b2'', ''a1'', ''c2''], [''b2'', ''a2'', ''c1'']],
          generate_pairwise_combinations remdups ?ps)"
    by code_simp
  have gp: "get_pairs_in_test [''b1'', ''a1'', ''c1''] (keys ?ps) = Inr ?cov"
    by code_simp
  have sc: "scan_candidates ?vs (keys ?ps) ?cov (None, 0) = Inr (Some [''b1'', ''a2'', ''c2''], 3)"
    by code_simp
  have n1: "?vs ! 1 = [''b1'', ''a1'', ''c2'']" by code_simp
  have n3: "?vs ! 3 = [''b1'', ''a2'', ''c2'']" by code_simp
  have len: "1 < length ?vs" by code_simp
  have c0: "newly_covered (keys ?ps) ?cov (?vs ! 0) = 0" by code_simp
  have c1: "newly_covered (keys ?ps) ?cov (?vs ! 1) = 2" by code_simp
  have ex: "exceeds_earlier ?vs (keys ?ps) ?cov 1"
    unfolding exceeds_earlier_def using len c0 c1 by simp
  from run gp sc ex n1 n3 show ?thesis by blast
qed

text \<open>
  Claim C5, amended. The greedy solver is deterministic: for any two enumerations of the
  set by \<open>list(all_pairs)\<close>, the one source of variation between two runs on the same
  map, it returns the same suite in the same order (and the same universe as a set). The
  suite is the trace of the scans: its element at position \<open>k\<close> is the candidate that
  the scan selects at the covered set of the \<open>k\<close> elements before it, with the loop
  condition holding there, and that candidate is the first one, in the enumeration order
  of the Cartesian product, of maximal count: its count of newly covered pairs is
  positive, strictly greater than the count of every earlier candidate and at least the
  count of every candidate (\<open>first_best\<close>). After the last element the loop ends: the
  covered set has the size of the universe, or the scan selects nothing.
\<close>

theorem greedy_deterministic_suite_selected:
  assumes l1: "set_listing enum1 (pair_insertions ps)"
    and l2: "set_listing enum2 (pair_insertions ps)"
  shows "\<exists>suite.
       greedy_find_minimum_test_suite enum1 ps
         = Inr (suite, generate_pairwise_combinations enum1 ps)
     \<and> greedy_find_minimum_test_suite enum2 ps
         = Inr (suite, generate_pairwise_combinations enum2 ps)
     \<and> set (generate_pairwise_combinations enum1 ps)
         = set (generate_pairwise_combinations enum2 ps)
     \<and> (\<forall>k < length suite. \<exists>m.
           card (covered_by (keys ps) (take k suite))
             < length (generate_pairwise_combinations enum1 ps)
         \<and> scan_candidates (product_of (values_of ps)) (keys ps)
             (covered_by (keys ps) (take k suite)) (None, 0) = Inr (Some (suite ! k), m)
         \<and> first_best (product_of (values_of ps)) (keys ps)
             (covered_by (keys ps) (take k suite)) (Some (suite ! k), m))
     \<and> (length (generate_pairwise_combinations enum1 ps) \<le> card (covered_by (keys ps) suite)
         \<or> scan_candidates (product_of (values_of ps)) (keys ps)
             (covered_by (keys ps) suite) (None, 0) = Inr (None, 0))"
proof -
  let ?vs = "product_of (values_of ps)" and ?ks = "keys ps"
  let ?n = "length (generate_pairwise_combinations enum1 ps)"
  have len: "?n = length (generate_pairwise_combinations enum2 ps)"
    using l1 l2 by (metis generate_pairwise_combinations_def set_listing_def distinct_card)
  have st: "set (generate_pairwise_combinations enum1 ps)
         = set (generate_pairwise_combinations enum2 ps)"
    using l1 l2 by (simp add: generate_pairwise_combinations_def set_listing_def)
  from greedy_find_trace[of enum1 ps] obtain suite where
    s1: "greedy_find_minimum_test_suite enum1 ps
           = Inr (suite, generate_pairwise_combinations enum1 ps)"
    and tr: "selected_run ?vs ?ks ?n {} suite"
    by blast
  from greedy_find_trace[of enum2 ps] obtain suite2 where
    s2': "greedy_find_minimum_test_suite enum2 ps
           = Inr (suite2, generate_pairwise_combinations enum2 ps)"
    by blast
  have "suite2 = suite"
    using s1 s2' unfolding greedy_find_minimum_test_suite_def Let_def len
    by (auto split: sum.splits prod.splits)
  with s2' have s2: "greedy_find_minimum_test_suite enum2 ps
           = Inr (suite, generate_pairwise_combinations enum2 ps)" by simp
  have sel: "\<exists>m. card (covered_by ?ks (take k suite)) < ?n
         \<and> scan_candidates ?vs ?ks (covered_by ?ks (take k suite)) (None, 0)
             = Inr (Some (suite ! k), m)
         \<and> first_best ?vs ?ks (covered_by ?ks (take k suite)) (Some (suite ! k), m)"
    if k: "k < length suite" for k
  proof -
    from selected_run_nth[OF tr k] obtain m where
      c: "card (covered_by ?ks (take k suite)) < ?n"
      and sc: "scan_candidates ?vs ?ks (covered_by ?ks (take k suite)) (None, 0)
             = Inr (Some (suite ! k), m)"
      by auto
    from scan_candidates_start[OF candidates_length, of ps "covered_by ?ks (take k suite)"] sc
    have "first_best ?vs ?ks (covered_by ?ks (take k suite)) (Some (suite ! k), m)"
      by auto
    with c sc show ?thesis by blast
  qed
  have fin: "?n \<le> card (covered_by ?ks suite)
         \<or> scan_candidates ?vs ?ks (covered_by ?ks suite) (None, 0) = Inr (None, 0)"
    using selected_run_end[OF tr] by simp
  from s1 s2 st sel fin show ?thesis by blast
qed

theorem greedy_deterministic_suite_selected_witness:
  "set_listing remdups (pair_insertions
     [(''B'', [''b1'', ''b2'']), (''A'', [''a1'', ''a2'']), (''C'', [''c1'', ''c2''])])
   \<and> set_listing (\<lambda>xs. rev (remdups xs)) (pair_insertions
     [(''B'', [''b1'', ''b2'']), (''A'', [''a1'', ''a2'']), (''C'', [''c1'', ''c2''])])
   \<and> greedy_find_minimum_test_suite remdups
        [(''B'', [''b1'', ''b2'']), (''A'', [''a1'', ''a2'']), (''C'', [''c1'', ''c2''])]
      = Inr ([[''b1'', ''a1'', ''c1''], [''b1'', ''a2'', ''c2''],
              [''b2'', ''a1'', ''c2''], [''b2'', ''a2'', ''c1'']],
             generate_pairwise_combinations remdups
               [(''B'', [''b1'', ''b2'']), (''A'', [''a1'', ''a2'']), (''C'', [''c1'', ''c2''])])
   \<and> greedy_find_minimum_test_suite (\<lambda>xs. rev (remdups xs))
        [(''B'', [''b1'', ''b2'']), (''A'', [''a1'', ''a2'']), (''C'', [''c1'', ''c2''])]
      = Inr ([[''b1'', ''a1'', ''c1''], [''b1'', ''a2'', ''c2''],
              [''b2'', ''a1'', ''c2''], [''b2'', ''a2'', ''c1'']],
             generate_pairwise_combinations (\<lambda>xs. rev (remdups xs))
               [(''B'', [''b1'', ''b2'']), (''A'', [''a1'', ''a2'']), (''C'', [''c1'', ''c2''])])
   \<and> generate_pairwise_combinations (\<lambda>xs. rev (remdups xs))
        [(''B'', [''b1'', ''b2'']), (''A'', [''a1'', ''a2'']), (''C'', [''c1'', ''c2''])]
      = rev (generate_pairwise_combinations remdups
        [(''B'', [''b1'', ''b2'']), (''A'', [''a1'', ''a2'']), (''C'', [''c1'', ''c2''])])
   \<and> (\<exists>m. scan_candidates
          (product_of (values_of
            [(''B'', [''b1'', ''b2'']), (''A'', [''a1'', ''a2'']), (''C'', [''c1'', ''c2''])]))
          (keys [(''B'', [''b1'', ''b2'']), (''A'', [''a1'', ''a2'']), (''C'', [''c1'', ''c2''])])
          (covered_by
            (keys [(''B'', [''b1'', ''b2'']), (''A'', [''a1'', ''a2'']), (''C'', [''c1'', ''c2''])])
            (take 1 [[''b1'', ''a1'', ''c1''], [''b1'', ''a2'', ''c2''],
                     [''b2'', ''a1'', ''c2''], [''b2'', ''a2'', ''c1'']])) (None, 0)
        = Inr (Some [''b1'', ''a2'', ''c2''], m)
      \<and> first_best
          (product_of (values_of
            [(''B'', [''b1'', ''b2'']), (''A'', [''a1'', ''a2'']), (''C'', [''c1'', ''c2''])]))
          (keys [(''B'', [''b1'', ''b2'']), (''A'', [''a1'', ''a2'']), (''C'', [''c1'', ''c2''])])
          (covered_by
            (keys [(''B'', [''b1'', ''b2'']), (''A'', [''a1'', ''a2'']), (''C'', [''c1'', ''c2''])])
            (take 1 [[''b1'', ''a1'', ''c1''], [''b1'', ''a2'', ''c2''],
                     [''b2'', ''a1'', ''c2''], [''b2'', ''a2'', ''c1'']]))
          (Some [''b1'', ''a2'', ''c2''], m))"
proof -
  let ?ps = "[(''B'', [''b1'', ''b2'']), (''A'', [''a1'', ''a2'']), (''C'', [''c1'', ''c2''])]"
  let ?s0 = "[[''b1'', ''a1'', ''c1''], [''b1'', ''a2'', ''c2''],
              [''b2'', ''a1'', ''c2''], [''b2'', ''a2'', ''c1'']]"
  have h1: "set_listing remdups (pair_insertions ?ps)" by code_simp
  have h2: "set_listing (\<lambda>xs. rev (remdups xs)) (pair_insertions ?ps)" by code_simp
  have r1: "greedy_find_minimum_test_suite remdups ?ps
      = Inr (?s0, generate_pairwise_combinations remdups ?ps)"
    by code_simp
  have rv: "generate_pairwise_combinations (\<lambda>xs. rev (remdups xs)) ?ps
      = rev (generate_pairwise_combinations remdups ?ps)"
    by (simp add: generate_pairwise_combinations_def)
  from greedy_deterministic_suite_selected[OF h1 h2] obtain suite where
    a: "greedy_find_minimum_test_suite remdups ?ps
         = Inr (suite, generate_pairwise_combinations remdups ?ps)"
    and b: "greedy_find_minimum_test_suite (\<lambda>xs. rev (remdups xs)) ?ps
         = Inr (suite, generate_pairwise_combinations (\<lambda>xs. rev (remdups xs)) ?ps)"
    and sel: "\<forall>k < length suite. \<exists>m.
           card (covered_by (keys ?ps) (take k suite))
             < length (generate_pairwise_combinations remdups ?ps)
         \<and> scan_candidates (product_of (values_of ?ps)) (keys ?ps)
             (covered_by (keys ?ps) (take k suite)) (None, 0) = Inr (Some (suite ! k), m)
         \<and> first_best (product_of (values_of ?ps)) (keys ?ps)
             (covered_by (keys ?ps) (take k suite)) (Some (suite ! k), m)"
    by blast
  from a r1 have eq: "suite = ?s0" by simp
  have k: "1 < length ?s0" by simp
  from sel[unfolded eq, rule_format, OF k] obtain m where
    "scan_candidates (product_of (values_of ?ps)) (keys ?ps)
             (covered_by (keys ?ps) (take 1 ?s0)) (None, 0) = Inr (Some (?s0 ! 1), m)"
    "first_best (product_of (values_of ?ps)) (keys ?ps)
             (covered_by (keys ?ps) (take 1 ?s0)) (Some (?s0 ! 1), m)"
    by blast
  moreover have "?s0 ! 1 = [''b1'', ''a2'', ''c2'']" by simp
  ultimately have ex: "\<exists>m. scan_candidates (product_of (values_of ?ps)) (keys ?ps)
             (covered_by (keys ?ps) (take 1 ?s0)) (None, 0) = Inr (Some [''b1'', ''a2'', ''c2''], m)
      \<and> first_best (product_of (values_of ?ps)) (keys ?ps)
             (covered_by (keys ?ps) (take 1 ?s0)) (Some [''b1'', ''a2'', ''c2''], m)"
    by auto
  from h1 h2 r1 b[unfolded eq] rv ex show ?thesis by blast
qed

text \<open>
  Claim C6. For every parameter map (names mapped to finite lists, as every value of
  the type \<open>parameters\<close> is), the greedy solver terminates and returns a suite with
  the pair universe; it never raises. \<open>greedy_loop\<close> is total by its termination
  proof, whose measure is the number of realisable pairs not yet covered; the main loop
  appends at most \<open>len(all_pairs)\<close> candidates, as each one grows the covered set
  while the loop condition holds.
\<close>

theorem greedy_terminates_without_error:
  "\<exists>suite. greedy_find_minimum_test_suite enum ps
             = Inr (suite, generate_pairwise_combinations enum ps)
     \<and> length suite \<le> length (generate_pairwise_combinations enum ps)"
  using greedy_find_result[of enum ps] by blast

text \<open>
  Claim C7 holds for the analyzer of algo.py (\<open>algo_count_unique_pairs_universe\<close>: it
  keeps a pair only if it is in \<open>all_pairs\<close>) and fails for the analyzer of
  greedyalgo.py, which never reads its argument \<open>all_pairs\<close>: for the map
  \<open>{A: [a], B: [b]}\<close>, its universe and the suite \<open>[(x, y)]\<close>, the pair
  \<open>((A, x), (B, y))\<close> is counted although it is not in the universe.
\<close>

theorem greedy_count_unique_pairs_outside_universe:
  "greedy_count_unique_pairs [[''x'', ''y'']] [((''A'', ''a''), (''B'', ''b''))]
     [(''A'', [''a'']), (''B'', [''b''])]
   = Inr ({((''A'', ''x''), (''B'', ''y''))}, [{((''A'', ''x''), (''B'', ''y''))}], [1])
   \<and> ((''A'', ''x''), (''B'', ''y'')) \<notin> set [((''A'', ''a''), (''B'', ''b''))]
   \<and> generate_pairwise_combinations remdups [(''A'', [''a'']), (''B'', [''b''])]
       = [((''A'', ''a''), (''B'', ''b''))]
   \<and> algo_count_unique_pairs [[''x'', ''y'']] [((''A'', ''a''), (''B'', ''b''))]
       [(''A'', [''a'']), (''B'', [''b''])] = ({}, [{}], [0])"
  by code_simp

text \<open>
  Claim C8. When the input passes the checks of algo.py and the constraint engine answers
  the model with a status other than OPTIMAL and FEASIBLE (infeasible, invalid model,
  unknown within the time budget), \<open>find_minimum_test_suite\<close> of algo.py returns the
  pair (None, None) and raises nothing.
\<close>

theorem algo_no_solution_returns_none:
  assumes "validate obj = Inr ps"
    and "fst (solver (build_model (generate_pairwise_combinations enum ps) (keys ps)
            (product_of (values_of ps)))) \<notin> {OPTIMAL, FEASIBLE}"
  shows "algo_find_minimum_test_suite solver enum obj = Inr (None, None)"
  using assms
  by (auto simp: algo_find_minimum_test_suite_def Let_def split: prod.splits)

theorem algo_no_solution_returns_none_witness:
  "validate (PyDict [(''A'', PyList [''a'']), (''B'', PyList [''b''])])
     = Inr [(''A'', [''a'']), (''B'', [''b''])]
   \<and> fst ((\<lambda>m. (UNKNOWN, \<lambda>i. False))
        (build_model (generate_pairwise_combinations remdups [(''A'', [''a'']), (''B'', [''b''])])
           (keys [(''A'', [''a'']), (''B'', [''b''])])
           (product_of (values_of [(''A'', [''a'']), (''B'', [''b''])])))) \<notin> {OPTIMAL, FEASIBLE}
   \<and> algo_find_minimum_test_suite (\<lambda>m. (UNKNOWN, \<lambda>i. False)) remdups
        (PyDict [(''A'', PyList [''a'']), (''B'', PyList [''b''])]) = Inr (None, None)"
proof -
  have h1: "validate (PyDict [(''A'', PyList [''a'']), (''B'', PyList [''b''])])
     = Inr [(''A'', [''a'']), (''B'', [''b''])]"
    by (simp add: validate_def)
  have h2: "fst ((\<lambda>m. (UNKNOWN, \<lambda>i. False))
        (build_model (generate_pairwise_combinations remdups [(''A'', [''a'']), (''B'', [''b''])])
           (keys [(''A'', [''a'']), (''B'', [''b''])])
           (product_of (values_of [(''A'', [''a'']), (''B'', [''b''])])))) \<notin> {OPTIMAL, FEASIBLE}"
    by simp
  from algo_no_solution_returns_none[OF h1 h2] h1 h2 show ?thesis by blast
qed

text \<open>
  Claim C9. For a parameter map (a dict, with any enumeration of the built universe) and
  a suite whose test cases each assign, in parameter order, one value of the
  corresponding parameter's own domain (\<open>candidate\<close>), the analyzer of greedyalgo.py
  raises nothing and returns what the analyzer of algo.py returns on the same suite, the
  universe built from the map, and the map: the same covered set, the same per-test-case
  pair sets and the same marginal counts.
\<close>

theorem analyzers_agree_on_candidates:
  assumes d: "is_dict ps" and l: "set_listing enum (pair_insertions ps)"
    and c: "list_all (candidate ps) suite"
  shows "greedy_count_unique_pairs suite (generate_pairwise_combinations enum ps) ps
       = Inr (algo_count_unique_pairs suite (generate_pairwise_combinations enum ps) ps)"
proof -
  have "\<forall>t \<in> set suite. length (keys ps) \<le> length t
          \<and> realised (keys ps) t \<subseteq> set (generate_pairwise_combinations enum ps)"
    using c realised_subset_universe[OF d] length_universe[OF d l]
    by (auto simp: candidate_length list_all_iff)
  from count_loops_agree[OF this] show ?thesis
    by (simp add: greedy_count_unique_pairs_def algo_count_unique_pairs_def)
qed

theorem analyzers_agree_on_candidates_witness:
  "is_dict [(''B'', [''x'', ''y'']), (''A'', [''u''])]
   \<and> set_listing remdups (pair_insertions [(''B'', [''x'', ''y'']), (''A'', [''u''])])
   \<and> list_all (candidate [(''B'', [''x'', ''y'']), (''A'', [''u''])])
         [[''y'', ''u''], [''y'', ''u''], [''x'', ''u'']]
   \<and> greedy_count_unique_pairs [[''y'', ''u''], [''y'', ''u''], [''x'', ''u'']]
        (generate_pairwise_combinations remdups [(''B'', [''x'', ''y'']), (''A'', [''u''])])
        [(''B'', [''x'', ''y'']), (''A'', [''u''])]
      = Inr (algo_count_unique_pairs [[''y'', ''u''], [''y'', ''u''], [''x'', ''u'']]
        (generate_pairwise_combinations remdups [(''B'', [''x'', ''y'']), (''A'', [''u''])])
        [(''B'', [''x'', ''y'']), (''A'', [''u''])])
   \<and> algo_count_unique_pairs [[''y'', ''u''], [''y'', ''u''], [''x'', ''u'']]
        (generate_pairwise_combinations remdups [(''B'', [''x'', ''y'']), (''A'', [''u''])])
        [(''B'', [''x'', ''y'']), (''A'', [''u''])]
      = ({((''A'', ''u''), (''B'', ''y'')), ((''A'', ''u''), (''B'', ''x''))},
         [{((''A'', ''u''), (''B'', ''y''))}, {((''A'', ''u''), (''B'', ''y''))},
          {((''A'', ''u''), (''B'', ''x''))}],
         [1, 0, 1])"
proof -
  let ?ps = "[(''B'', [''x'', ''y'']), (''A'', [''u''])]"
  let ?suite = "[[''y'', ''u''], [''y'', ''u''], [''x'', ''u'']]"
  have h1: "is_dict ?ps" by code_simp
  have h2: "set_listing remdups (pair_insertions ?ps)" by code_simp
  have h3: "list_all (candidate ?ps) ?suite" by code_simp
  have v: "algo_count_unique_pairs ?suite (generate_pairwise_combinations remdups ?ps) ?ps
      = ({((''A'', ''u''), (''B'', ''y'')), ((''A'', ''u''), (''B'', ''x''))},
         [{((''A'', ''u''), (''B'', ''y''))}, {((''A'', ''u''), (''B'', ''y''))},
          {((''A'', ''u''), (''B'', ''x''))}],
         [1, 0, 1])"
    by code_simp
  from analyzers_agree_on_candidates[OF h1 h2 h3] h1 h2 h3 v show ?thesis by blast
qed

text \<open>
  Claim C10. For every parameter map, the marginal new-coverage counts that
  \<open>count_unique_pairs\<close> of greedyalgo.py computes for the suite returned by the greedy
  solver are all strictly positive (one count per test case), and no candidate occurs
  twice in the suite.
\<close>

theorem greedy_suite_marginal_counts_positive:
  "\<exists>suite all_pairs covered test_case_pairs new_unique_counts.
     greedy_find_minimum_test_suite enum ps = Inr (suite, all_pairs)
   \<and> greedy_count_unique_pairs suite all_pairs ps
        = Inr (covered, test_case_pairs, new_unique_counts)
   \<and> length new_unique_counts = length suite
   \<and> (\<forall>c \<in> set new_unique_counts. 0 < c)
   \<and> distinct suite"
proof -
  from greedy_find_result[of enum ps] obtain suite where s:
    "greedy_find_minimum_test_suite enum ps = Inr (suite, generate_pairwise_combinations enum ps)"
    "set suite \<subseteq> set (product_of (values_of ps))" "fresh (keys ps) {} suite"
    by blast
  have len: "\<forall>t \<in> set suite. length (keys ps) \<le> length t"
    using s(2) candidates_length by blast
  have cnt: "greedy_count_unique_pairs suite (generate_pairwise_combinations enum ps) ps
     = Inr (covered_by (keys ps) suite, map (realised (keys ps)) suite, marginal (keys ps) {} suite)"
    unfolding greedy_count_unique_pairs_def using greedy_count_loop_ok[OF len, of "{}" "[]" "[]"]
    by simp
  have lenm: "length (marginal (keys ps) cov suite) = length suite" for cov
    by (induction suite arbitrary: cov) auto
  show ?thesis
    using s(1) cnt marginal_fresh_pos[OF finite.emptyI s(3)] fresh_distinct[OF s(3)] lenm
    by blast
qed

theorem greedy_suite_marginal_counts_positive_witness:
  "greedy_find_minimum_test_suite remdups
     [(''B'', [''b1'', ''b2'']), (''A'', [''a1'', ''a2'']), (''C'', [''c1'', ''c2''])]
   = Inr ([[''b1'', ''a1'', ''c1''], [''b1'', ''a2'', ''c2''],
           [''b2'', ''a1'', ''c2''], [''b2'', ''a2'', ''c1'']],
          generate_pairwise_combinations remdups
            [(''B'', [''b1'', ''b2'']), (''A'', [''a1'', ''a2'']), (''C'', [''c1'', ''c2''])])
   \<and> map_sum id (\<lambda>r. snd (snd r))
        (greedy_count_unique_pairs
          [[''b1'', ''a1'', ''c1''], [''b1'', ''a2'', ''c2''],
           [''b2'', ''a1'', ''c2''], [''b2'', ''a2'', ''c1'']]
          (generate_pairwise_combinations remdups
            [(''B'', [''b1'', ''b2'']), (''A'', [''a1'', ''a2'']), (''C'', [''c1'', ''c2''])])
          [(''B'', [''b1'', ''b2'']), (''A'', [''a1'', ''a2'']), (''C'', [''c1'', ''c2''])])
      = Inr [3, 3, 3, 3]
   \<and> list_all (\<lambda>c. 0 < c) [3, 3, 3, 3 :: int]
   \<and> distinct [[''b1'', ''a1'', ''c1''], [''b1'', ''a2'', ''c2''],
           [''b2'', ''a1'', ''c2''], [''b2'', ''a2'', ''c1'']]"
proof -
  let ?ps = "[(''B'', [''b1'', ''b2'']), (''A'', [''a1'', ''a2'']), (''C'', [''c1'', ''c2''])]"
  let ?suite = "[[''b1'', ''a1'', ''c1''], [''b1'', ''a2'', ''c2''],
           [''b2'', ''a1'', ''c2''], [''b2'', ''a2'', ''c1'']]"
  have run: "greedy_find_minimum_test_suite remdups ?ps
      = Inr (?suite, generate_pairwise_combinations remdups ?ps)"
    by code_simp
  have cnt: "map_sum id (\<lambda>r. snd (snd r))
      (greedy_count_unique_pairs ?suite (generate_pairwise_combinations remdups ?ps) ?ps)
     = Inr [3, 3, 3, 3]"
    by code_simp
  from greedy_suite_marginal_counts_positive[of remdups ?ps]
  obtain suite all_pairs covered test_case_pairs new_unique_counts where r:
    "greedy_find_minimum_test_suite remdups ?ps = Inr (suite, all_pairs)"
    "greedy_count_unique_pairs suite all_pairs ?ps
       = Inr (covered, test_case_pairs, new_unique_counts)"
    "\<forall>c \<in> set new_unique_counts. 0 < c" "distinct suite"
    by blast
  from r(1) run have eq: "suite = ?suite" "all_pairs = generate_pairwise_combinations remdups ?ps"
    by simp_all
  from r(2) cnt have "new_unique_counts = [3, 3, 3, 3]"
    unfolding eq by simp
  with r(3,4) eq(1) run cnt show ?thesis unfolding list_all_iff by blast
qed

end
